theory Spec2Isabelle
  imports Main "HOL-Library.AList"
begin

section \<open>Data model\<close>

text \<open>
  The server keeps two JavaScript \<open>Map\<close>s and a metrics object. A \<open>Map\<close> iterates in
  insertion order, \<open>set\<close> on an existing key keeps the key's position and \<open>delete\<close> removes
  the key: this is an association list with \<open>AList.update\<close>, \<open>AList.delete\<close> and
  \<open>map_of\<close>. A \<open>Set\<close> of replies iterates in insertion order too and is a list without
  repetitions. Timestamps are the integer milliseconds of \<open>Date.now()\<close>.
\<close>

type_synonym StudentId = string

text \<open>A reply object (one open SSE response) is known by its identity only.\<close>

type_synonym reply = nat

record Notification =
  nid :: string
  studentId :: StudentId
  message :: string
  createdAt :: int

text \<open>
  The request bodies. A field that is absent from the JSON body is \<open>None\<close>; the handlers
  test fields with \<open>!field\<close>, which holds for an absent field and for the empty string.
\<close>

record PublishBody =
  body_studentId :: "string option"
  body_message :: "string option"

definition falsy :: "string option \<Rightarrow> bool" where
  "falsy v = (case v of None \<Rightarrow> True | Some s \<Rightarrow> s = [])"

definition the_string :: "string option \<Rightarrow> string" where
  "the_string v = (case v of None \<Rightarrow> [] | Some s \<Rightarrow> s)"

record metrics_t =
  connectionsTotal :: int
  connectionsActive :: int
  notificationsSent :: int
  notificationsStored :: int
  notificationsEvicted :: int

text \<open>
  What is written to a reply's raw stream: the opening comment \<open>: connected <now>\<close>, or a
  \<open>data:\<close> line holding the JSON object \<open>{type, id, message, createdAt}\<close>.
\<close>

datatype kind = missed | live

datatype frame =
  Connected int
  | Data kind string string int

definition evt :: "kind \<Rightarrow> Notification \<Rightarrow> frame" where
  "evt k n = Data k (nid n) (message n) (createdAt n)"

text \<open>
  The state of the module: the two maps, the metrics, and the observable side of the
  replies, namely the frames each reply's stream has accepted (\<open>written\<close>) and the replies
  whose stream was ended by an eviction (\<open>ended\<close>).
\<close>

record state =
  connections :: "(StudentId \<times> reply list) list"
  recentNotifications :: "(StudentId \<times> Notification list) list"
  metrics :: metrics_t
  written :: "reply \<Rightarrow> frame list"
  ended :: "reply list"

definition init_state :: state where
  "init_state = \<lparr> connections = [], recentNotifications = [],
     metrics = \<lparr> connectionsTotal = 0, connectionsActive = 0, notificationsSent = 0,
                 notificationsStored = 0, notificationsEvicted = 0 \<rparr>,
     written = (\<lambda>_. []), ended = [] \<rparr>"

text \<open>\<open>connections.get(studentId) ?? new Set()\<close> and \<open>recentNotifications.get(studentId) ?? []\<close>.\<close>

definition conns_of :: "StudentId \<Rightarrow> state \<Rightarrow> reply list" where
  "conns_of s st = (case map_of (connections st) s of None \<Rightarrow> [] | Some rs \<Rightarrow> rs)"

definition history_of :: "StudentId \<Rightarrow> state \<Rightarrow> Notification list" where
  "history_of s st = (case map_of (recentNotifications st) s of None \<Rightarrow> [] | Some l \<Rightarrow> l)"

text \<open>\<open>Set.add\<close> keeps an element that is already there in its place.\<close>

definition set_add :: "'a \<Rightarrow> 'a list \<Rightarrow> 'a list" where
  "set_add x xs = (if x \<in> set xs then xs else xs @ [x])"

section \<open>The raw stream\<close>

text \<open>
  \<open>reply.raw.write(data)\<close> either accepts the data or throws. Which replies throw is a
  parameter \<open>ok\<close> of the environment. The result says whether the write went through.
\<close>

definition raw_write :: "(reply \<Rightarrow> bool) \<Rightarrow> reply \<Rightarrow> frame \<Rightarrow> state \<Rightarrow> bool \<times> state" where
  "raw_write ok r f st =
     (if ok r then (True, st\<lparr>written := (written st)(r := written st r @ [f])\<rparr>)
      else (False, st))"

section \<open>The notification store\<close>

text \<open>
  \<open>pruneOldNotifications(now)\<close>: the loop over the entries of \<open>recentNotifications\<close>. The
  retention window \<open>NOTIFICATION_TTL_MS\<close> is imported from a constants module and is a
  parameter here.
\<close>

fun prune_loop :: "int \<Rightarrow> int \<Rightarrow> (StudentId \<times> Notification list) list \<Rightarrow> state \<Rightarrow> state" where
  "prune_loop ttl now [] st = st"
| "prune_loop ttl now ((s, l) # es) st =
     (let filtered = filter (\<lambda>n. now - createdAt n \<le> ttl) l;
          evicted = int (length l) - int (length filtered);
          st1 = (if evicted > 0
                 then st\<lparr>metrics := (metrics st)\<lparr>notificationsEvicted :=
                        notificationsEvicted (metrics st) + evicted\<rparr>\<rparr>
                 else st);
          st2 = (if length filtered = 0
                 then st1\<lparr>recentNotifications := AList.delete s (recentNotifications st1)\<rparr>
                 else st1\<lparr>recentNotifications :=
                        AList.update s filtered (recentNotifications st1)\<rparr>)
      in prune_loop ttl now es st2)"

definition pruneOldNotifications :: "int \<Rightarrow> int \<Rightarrow> state \<Rightarrow> state" where
  "pruneOldNotifications ttl now st = prune_loop ttl now (recentNotifications st) st"

text \<open>
  \<open>addRecentNotification(n)\<close>; \<open>now\<close> is the clock reading of the \<open>pruneOldNotifications()\<close>
  call at its end.
\<close>

definition addRecentNotification :: "int \<Rightarrow> int \<Rightarrow> Notification \<Rightarrow> state \<Rightarrow> state" where
  "addRecentNotification ttl now n st =
     (let list = history_of (studentId n) st @ [n];
          st1 = st\<lparr>recentNotifications :=
                    AList.update (studentId n) list (recentNotifications st)\<rparr>;
          st2 = st1\<lparr>metrics := (metrics st1)\<lparr>notificationsStored :=
                    notificationsStored (metrics st1) + 1\<rparr>\<rparr>
      in pruneOldNotifications ttl now st2)"

section \<open>The connection registry\<close>

fun broadcast_loop ::
  "(reply \<Rightarrow> bool) \<Rightarrow> frame \<Rightarrow> reply list \<Rightarrow> int \<times> state \<Rightarrow> int \<times> state" where
  "broadcast_loop ok payload [] acc = acc"
| "broadcast_loop ok payload (r # rs) (sent, st) =
     (case raw_write ok r payload st of
        (True, st') \<Rightarrow> broadcast_loop ok payload rs (sent + 1, st')
      | (False, st') \<Rightarrow> broadcast_loop ok payload rs (sent, st'))"

definition broadcastToStudent ::
  "(reply \<Rightarrow> bool) \<Rightarrow> StudentId \<Rightarrow> frame \<Rightarrow> state \<Rightarrow> int \<times> state" where
  "broadcastToStudent ok s payload st =
     (case map_of (connections st) s of
        None \<Rightarrow> (0, st)
      | Some rs \<Rightarrow>
          if length rs = 0 then (0, st)
          else (case broadcast_loop ok payload rs (0, st) of
                  (sent, st') \<Rightarrow>
                    (sent, st'\<lparr>metrics := (metrics st')\<lparr>notificationsSent :=
                              notificationsSent (metrics st') + sent\<rparr>\<rparr>)))"

text \<open>
  \<open>registerConnection(studentId, reply)\<close>. The limit \<open>MAX_CONNECTIONS_PER_STUDENT\<close> comes
  from the constants module and is the parameter \<open>maxc\<close>. The first element of the set in
  iteration order is the head of the list; \<open>oldest.raw.end()\<close> is recorded in \<open>ended\<close>.
\<close>

definition registerConnection :: "nat \<Rightarrow> StudentId \<Rightarrow> reply \<Rightarrow> state \<Rightarrow> state" where
  "registerConnection maxc s r st =
     (let set0 = conns_of s st;
          (set1, st1) =
            (if length set0 \<ge> maxc
             then (case set0 of
                     [] \<Rightarrow> (set0, st)
                   | oldest # _ \<Rightarrow>
                       (removeAll oldest set0,
                        st\<lparr>ended := ended st @ [oldest],
                           metrics := (metrics st)\<lparr>connectionsActive :=
                             max 0 (connectionsActive (metrics st) - 1)\<rparr>\<rparr>))
             else (set0, st));
          set2 = set_add r set1;
          st2 = st1\<lparr>connections := AList.update s set2 (connections st1)\<rparr>;
          st3 = st2\<lparr>metrics := (metrics st2)\<lparr>connectionsTotal :=
                    connectionsTotal (metrics st2) + 1\<rparr>\<rparr>
      in st3\<lparr>metrics := (metrics st3)\<lparr>connectionsActive :=
                    connectionsActive (metrics st3) + 1\<rparr>\<rparr>)"

definition unregisterConnection :: "StudentId \<Rightarrow> reply \<Rightarrow> state \<Rightarrow> state" where
  "unregisterConnection s r st =
     (case map_of (connections st) s of
        None \<Rightarrow> st
      | Some set0 \<Rightarrow>
          (let set1 = removeAll r set0;
               st1 = (if r \<in> set set0
                      then st\<lparr>metrics := (metrics st)\<lparr>connectionsActive :=
                             max 0 (connectionsActive (metrics st) - 1)\<rparr>\<rparr>
                      else st)
           in if length set1 = 0
              then st1\<lparr>connections := AList.delete s (connections st1)\<rparr>
              else st1\<lparr>connections := AList.update s set1 (connections st1)\<rparr>))"

section \<open>The request handlers\<close>

text \<open>
  The clock and the random source are inputs. One accepted notification reads the clock
  three times (for the id, for \<open>createdAt\<close>, and inside \<open>pruneOldNotifications()\<close>) and
  draws one random suffix \<open>Math.random().toString(36).slice(2)\<close>.
\<close>

record publish_env =
  id_now :: int
  rnd :: string
  created_now :: int
  prune_now :: int

definition digit_char :: "nat \<Rightarrow> char" where
  "digit_char d = char_of (48 + d)"

function show_nat :: "nat \<Rightarrow> string" where
  "show_nat n = (if n < 10 then [digit_char n] else show_nat (n div 10) @ [digit_char (n mod 10)])"
  by pat_completeness auto
termination
  by (relation "measure (\<lambda>n. n)") auto

definition show_int :: "int \<Rightarrow> string" where
  "show_int i = (if i < 0 then CHR ''-'' # show_nat (nat (- i)) else show_nat (nat i))"

text \<open>The template string \<open>`${Date.now()}-${Math.random().toString(36).slice(2)}`\<close>.\<close>

definition make_id :: "int \<Rightarrow> string \<Rightarrow> string" where
  "make_id t suffix = show_int t @ ''-'' @ suffix"

definition make_notification :: "StudentId \<Rightarrow> string \<Rightarrow> publish_env \<Rightarrow> Notification" where
  "make_notification s m env =
     \<lparr> nid = make_id (id_now env) (rnd env), studentId = s, message = m,
       createdAt = created_now env \<rparr>"

datatype body =
  Error string
  | Accepted string
  | AcceptedBatch int "(string \<times> StudentId) list"

text \<open>
  What a handler leaves behind: a reply with a status code and a JSON body, the SSE
  stream left open, or an exception that escaped the handler.
\<close>

datatype response =
  Reply int body
  | StreamOpen
  | Threw

text \<open>
  The body shared by \<open>/publish\<close> and by one round of the loop of \<open>/publish/batch\<close>: build
  the notification, store it, broadcast it as \<open>live\<close>.
\<close>

definition publish_one ::
  "(reply \<Rightarrow> bool) \<Rightarrow> int \<Rightarrow> StudentId \<Rightarrow> string \<Rightarrow> publish_env \<Rightarrow> state \<Rightarrow> Notification \<times> state" where
  "publish_one ok ttl s m env st =
     (let n = make_notification s m env;
          st1 = addRecentNotification ttl (prune_now env) n st;
          st2 = snd (broadcastToStudent ok s (evt live n) st1)
      in (n, st2))"

definition publish ::
  "(reply \<Rightarrow> bool) \<Rightarrow> int \<Rightarrow> PublishBody option \<Rightarrow> publish_env \<Rightarrow> state \<Rightarrow> response \<times> state" where
  "publish ok ttl request_body env st =
     (let b = (case request_body of
                 None \<Rightarrow> \<lparr> body_studentId = None, body_message = None \<rparr>
               | Some b \<Rightarrow> b)
      in if falsy (body_studentId b) \<or> falsy (body_message b)
         then (Reply 400 (Error ''studentId and message required''), st)
         else (case publish_one ok ttl (the_string (body_studentId b))
                      (the_string (body_message b)) env st of
                 (n, st') \<Rightarrow> (Reply 202 (Accepted (nid n)), st')))"

text \<open>
  \<open>/publish/batch\<close>. \<open>notifications\<close> is \<open>None\<close> when the field is absent or not an array.
  The clock readings and random draws of the round at position \<open>i\<close> are \<open>envs i\<close>.
\<close>

record BatchPublishBody =
  notifications :: "PublishBody list option"

fun batch_loop ::
  "(reply \<Rightarrow> bool) \<Rightarrow> int \<Rightarrow> (nat \<Rightarrow> publish_env) \<Rightarrow> nat \<Rightarrow> PublishBody list \<Rightarrow>
     (string \<times> StudentId) list \<times> state \<Rightarrow> (string \<times> StudentId) list \<times> state" where
  "batch_loop ok ttl envs i [] acc = acc"
| "batch_loop ok ttl envs i (p # ps) (results, st) =
     (if falsy (body_studentId p) \<or> falsy (body_message p)
      then batch_loop ok ttl envs (Suc i) ps (results, st)
      else (case publish_one ok ttl (the_string (body_studentId p))
                   (the_string (body_message p)) (envs i) st of
              (n, st') \<Rightarrow>
                batch_loop ok ttl envs (Suc i) ps
                  (results @ [(nid n, the_string (body_studentId p))], st')))"

definition publish_batch ::
  "(reply \<Rightarrow> bool) \<Rightarrow> int \<Rightarrow> BatchPublishBody option \<Rightarrow> (nat \<Rightarrow> publish_env) \<Rightarrow> state \<Rightarrow>
     response \<times> state" where
  "publish_batch ok ttl request_body envs st =
     (case request_body of
        None \<Rightarrow> (Reply 400 (Error ''notifications array required''), st)
      | Some b \<Rightarrow>
          (case notifications b of
             None \<Rightarrow> (Reply 400 (Error ''notifications array required''), st)
           | Some ps \<Rightarrow>
               if length ps = 0
               then (Reply 400 (Error ''notifications array required''), st)
               else (case batch_loop ok ttl envs 0 ps ([], st) of
                       (results, st') \<Rightarrow>
                         (Reply 202 (AcceptedBatch (int (length results)) results), st'))))"

text \<open>
  The replay of \<open>/sse\<close>: prune at the clock reading \<open>now\<close>, read the student's list, write
  each entry as a \<open>missed\<close> event, every write in its own \<open>try\<close>.
\<close>

fun replay_loop :: "(reply \<Rightarrow> bool) \<Rightarrow> reply \<Rightarrow> Notification list \<Rightarrow> state \<Rightarrow> state" where
  "replay_loop ok r [] st = st"
| "replay_loop ok r (n # ns) st = replay_loop ok r ns (snd (raw_write ok r (evt missed n) st))"

definition replay_missed ::
  "(reply \<Rightarrow> bool) \<Rightarrow> int \<Rightarrow> StudentId \<Rightarrow> reply \<Rightarrow> int \<Rightarrow> state \<Rightarrow> state" where
  "replay_missed ok ttl s r now st =
     (let st1 = pruneOldNotifications ttl now st;
          missed_list = history_of s st1
      in if length missed_list > 0 then replay_loop ok r missed_list st1 else st1)"

text \<open>
  \<open>/sse\<close>. The header write and the keep-alive timer belong to the transport and leave the
  module's state alone. The write of the opening comment is outside any \<open>try\<close>: when it
  throws, the handler ends there, after the registration. \<open>conn_now\<close> and \<open>now\<close> are the
  clock readings of the opening comment and of \<open>pruneOldNotifications()\<close>.
\<close>

definition sse ::
  "(reply \<Rightarrow> bool) \<Rightarrow> int \<Rightarrow> nat \<Rightarrow> string option \<Rightarrow> reply \<Rightarrow> int \<Rightarrow> int \<Rightarrow> state \<Rightarrow>
     response \<times> state" where
  "sse ok ttl maxc query_studentId r conn_now now st =
     (if falsy query_studentId
      then (Reply 400 (Error ''studentId is required''), st)
      else (let s = the_string query_studentId;
                st1 = registerConnection maxc s r st
            in case raw_write ok r (Connected conn_now) st1 of
                 (False, st2) \<Rightarrow> (Threw, st2)
               | (True, st2) \<Rightarrow> (StreamOpen, replay_missed ok ttl s r now st2)))"

section \<open>Operations of the system\<close>

text \<open>
  Everything that changes the state: the five functions of the module, the three request
  handlers, the \<open>close\<close>/\<open>end\<close> callback of a reply and the cleanup timer.
\<close>

datatype op =
  Register StudentId reply
  | Unregister StudentId reply
  | Broadcast StudentId frame
  | Append Notification int
  | Prune int
  | Publish "PublishBody option" publish_env
  | PublishBatch "BatchPublishBody option" "nat \<Rightarrow> publish_env"
  | Subscribe "string option" reply int int
  | OnClose StudentId reply
  | CleanupTick int

fun apply_op :: "(reply \<Rightarrow> bool) \<Rightarrow> int \<Rightarrow> nat \<Rightarrow> state \<Rightarrow> op \<Rightarrow> state" where
  "apply_op ok ttl maxc st (Register s r) = registerConnection maxc s r st"
| "apply_op ok ttl maxc st (Unregister s r) = unregisterConnection s r st"
| "apply_op ok ttl maxc st (Broadcast s payload) = snd (broadcastToStudent ok s payload st)"
| "apply_op ok ttl maxc st (Append n now) = addRecentNotification ttl now n st"
| "apply_op ok ttl maxc st (Prune now) = pruneOldNotifications ttl now st"
| "apply_op ok ttl maxc st (Publish b env) = snd (publish ok ttl b env st)"
| "apply_op ok ttl maxc st (PublishBatch b envs) = snd (publish_batch ok ttl b envs st)"
| "apply_op ok ttl maxc st (Subscribe q r conn_now now) = snd (sse ok ttl maxc q r conn_now now st)"
| "apply_op ok ttl maxc st (OnClose s r) = unregisterConnection s r st"
| "apply_op ok ttl maxc st (CleanupTick now) = pruneOldNotifications ttl now st"

definition run :: "(reply \<Rightarrow> bool) \<Rightarrow> int \<Rightarrow> nat \<Rightarrow> state \<Rightarrow> op list \<Rightarrow> state" where
  "run ok ttl maxc st ops = foldl (apply_op ok ttl maxc) st ops"

text \<open>The replies an operation hands to \<open>registerConnection\<close>.\<close>

fun registers :: "op \<Rightarrow> reply list" where
  "registers (Register s r) = [r]"
| "registers (Subscribe q r conn_now now) = (if falsy q then [] else [r])"
| "registers _ = []"

definition total_connections :: "state \<Rightarrow> nat" where
  "total_connections st = sum_list (map (\<lambda>(s, rs). length rs) (connections st))"

definition total_stored :: "state \<Rightarrow> nat" where
  "total_stored st = sum_list (map (\<lambda>(s, l). length l) (recentNotifications st))"

section \<open>Pruning, as the specification words it\<close>

text \<open>
  The specification's \<open>prune(now)\<close>: every history loses its entries older than the
  retention window, a recipient whose history becomes empty loses its key, and the
  evicted-count grows by the number of entries removed.
\<close>

definition spec_prune ::
  "int \<Rightarrow> int \<Rightarrow> (StudentId \<times> Notification list) list \<Rightarrow> (StudentId \<times> Notification list) list" where
  "spec_prune ttl now al =
     filter (\<lambda>(s, l). l \<noteq> []) (map (\<lambda>(s, l). (s, filter (\<lambda>n. now - createdAt n \<le> ttl) l)) al)"

definition spec_removed :: "int \<Rightarrow> int \<Rightarrow> (StudentId \<times> Notification list) list \<Rightarrow> int" where
  "spec_removed ttl now al =
     sum_list (map (\<lambda>(s, l). int (length (filter (\<lambda>n. \<not> now - createdAt n \<le> ttl) l))) al)"

section \<open>Interleavings of one publish with one subscribe\<close>

text \<open>
  The state-changing statements of the two handlers, one action each, in program order:
  \<open>/publish\<close> stores and then broadcasts; \<open>/sse\<close> registers, writes the opening comment and
  then replays.
\<close>

datatype action =
  PubAppend Notification int
  | PubBroadcast Notification
  | SubRegister StudentId reply
  | SubConnected reply int
  | SubReplay StudentId reply int

fun perform :: "(reply \<Rightarrow> bool) \<Rightarrow> int \<Rightarrow> nat \<Rightarrow> state \<Rightarrow> action \<Rightarrow> state" where
  "perform ok ttl maxc st (PubAppend n now) = addRecentNotification ttl now n st"
| "perform ok ttl maxc st (PubBroadcast n) =
     snd (broadcastToStudent ok (studentId n) (evt live n) st)"
| "perform ok ttl maxc st (SubRegister s r) = registerConnection maxc s r st"
| "perform ok ttl maxc st (SubConnected r now) = snd (raw_write ok r (Connected now) st)"
| "perform ok ttl maxc st (SubReplay s r now) = replay_missed ok ttl s r now st"

definition publish_actions :: "StudentId \<Rightarrow> string \<Rightarrow> publish_env \<Rightarrow> action list" where
  "publish_actions s m env =
     [PubAppend (make_notification s m env) (prune_now env),
      PubBroadcast (make_notification s m env)]"

definition subscribe_actions :: "StudentId \<Rightarrow> reply \<Rightarrow> int \<Rightarrow> int \<Rightarrow> action list" where
  "subscribe_actions s r conn_now now = [SubRegister s r, SubConnected r conn_now, SubReplay s r now]"

fun interleavings :: "'a list \<Rightarrow> 'a list \<Rightarrow> 'a list list" where
  "interleavings [] ys = [ys]"
| "interleavings xs [] = [xs]"
| "interleavings (x # xs) (y # ys) =
     map ((#) x) (interleavings xs (y # ys)) @ map ((#) y) (interleavings (x # xs) ys)"

text \<open>How often a reply's stream holds the notification, as \<open>missed\<close> or as \<open>live\<close>.\<close>

definition deliveries :: "Notification \<Rightarrow> reply \<Rightarrow> state \<Rightarrow> nat" where
  "deliveries n r st =
     count_list (written st r) (evt missed n) + count_list (written st r) (evt live n)"

section \<open>Relations between a state and its successor\<close>

text \<open>The four counters that only count up have not gone down from \<open>st\<close> to \<open>st'\<close>.\<close>

definition counters_mono :: "state \<Rightarrow> state \<Rightarrow> bool" where
  "counters_mono st st' \<longleftrightarrow>
     connectionsTotal (metrics st) \<le> connectionsTotal (metrics st') \<and>
     notificationsSent (metrics st) \<le> notificationsSent (metrics st') \<and>
     notificationsStored (metrics st) \<le> notificationsStored (metrics st') \<and>
     notificationsEvicted (metrics st) \<le> notificationsEvicted (metrics st')"

text \<open>The registry side of the state is the same in \<open>st\<close> and \<open>st'\<close>.\<close>

definition registry_kept :: "state \<Rightarrow> state \<Rightarrow> bool" where
  "registry_kept st st' \<longleftrightarrow>
     connections st' = connections st \<and> ended st' = ended st \<and>
     connectionsTotal (metrics st') = connectionsTotal (metrics st) \<and>
     connectionsActive (metrics st') = connectionsActive (metrics st)"

text \<open>The store side of the state is the same in \<open>st\<close> and \<open>st'\<close>.\<close>

definition store_kept :: "state \<Rightarrow> state \<Rightarrow> bool" where
  "store_kept st st' \<longleftrightarrow>
     recentNotifications st' = recentNotifications st \<and>
     notificationsStored (metrics st') = notificationsStored (metrics st) \<and>
     notificationsEvicted (metrics st') = notificationsEvicted (metrics st)"

section \<open>Well-formed registries\<close>

text \<open>
  What the \<open>Map\<close> of \<open>Set\<close>s guarantees by construction (keys occur once, a set holds a reply
  once), together with the agreement of \<open>connectionsActive\<close> with the number of registered
  replies.
\<close>

definition registry_ok :: "state \<Rightarrow> bool" where
  "registry_ok st \<longleftrightarrow>
     distinct (map fst (connections st)) \<and>
     (\<forall>(s, rs) \<in> set (connections st). distinct rs) \<and>
     connectionsActive (metrics st) = int (total_connections st)"

text \<open>The reply is in no student's set.\<close>

definition fresh_reply :: "reply \<Rightarrow> state \<Rightarrow> bool" where
  "fresh_reply r st \<longleftrightarrow> (\<forall>(s, rs) \<in> set (connections st). r \<notin> set rs)"

section \<open>Invalid publish requests, as the specification words them\<close>

text \<open>\<open>recipientId\<close> or \<open>message\<close> is missing or empty (a request without a body misses both).\<close>

definition missing_or_empty :: "PublishBody option \<Rightarrow> bool" where
  "missing_or_empty request_body =
     (case request_body of
        None \<Rightarrow> True
      | Some b \<Rightarrow> body_studentId b = None \<or> body_studentId b = Some [] \<or>
                  body_message b = None \<or> body_message b = Some [])"

section \<open>Concrete scenarios\<close>

text \<open>States and inputs on which the theorems below are evaluated.\<close>

definition n_old :: Notification where
  "n_old = \<lparr> nid = ''0-a'', studentId = ''s1'', message = ''old'', createdAt = 0 \<rparr>"

definition n_new :: Notification where
  "n_new = \<lparr> nid = ''950-b'', studentId = ''s1'', message = ''new'', createdAt = 950 \<rparr>"

definition n_other :: Notification where
  "n_other = \<lparr> nid = ''10-c'', studentId = ''s2'', message = ''gone'', createdAt = 10 \<rparr>"

definition store_example :: state where
  "store_example = init_state\<lparr>recentNotifications :=
     [(''s1'', [n_old, n_new]), (''s2'', [n_other])]\<rparr>"

definition all_ok :: "reply \<Rightarrow> bool" where
  "all_ok r = True"

definition env_example :: publish_env where
  "env_example = \<lparr> id_now = 1000, rnd = ''k3x'', created_now = 1000, prune_now = 1000 \<rparr>"


definition body_example :: PublishBody where
  "body_example = \<lparr> body_studentId = Some ''s1'', body_message = Some ''New grade posted'' \<rparr>"

text \<open>Recipient \<open>r\<close> with two replies, the second of which throws on every write.\<close>

definition c2_fails :: "reply \<Rightarrow> bool" where
  "c2_fails r = (r \<noteq> 2)"

definition two_channels :: state where
  "two_channels = init_state\<lparr>connections := [(''r'', [1, 2])],
     metrics := (metrics init_state)\<lparr>connectionsTotal := 2, connectionsActive := 2\<rparr>\<rparr>"

section \<open>Effects of a write\<close>

lemma raw_write_fst [simp]: "fst (raw_write ok r f st) = ok r"
  by (simp add: raw_write_def)

lemma raw_write_fields [simp]:
  "connections (snd (raw_write ok r f st)) = connections st"
  "recentNotifications (snd (raw_write ok r f st)) = recentNotifications st"
  "metrics (snd (raw_write ok r f st)) = metrics st"
  "ended (snd (raw_write ok r f st)) = ended st"
  "written (snd (raw_write ok r f st)) =
     (if ok r then (written st)(r := written st r @ [f]) else written st)"
  by (simp_all add: raw_write_def)

section \<open>The pruning loop computes the specification's prune\<close>

lemma prune_loop_frame:
  "connections (prune_loop ttl now es st) = connections st \<and>
   written (prune_loop ttl now es st) = written st \<and>
   ended (prune_loop ttl now es st) = ended st \<and>
   connectionsTotal (metrics (prune_loop ttl now es st)) = connectionsTotal (metrics st) \<and>
   connectionsActive (metrics (prune_loop ttl now es st)) = connectionsActive (metrics st) \<and>
   notificationsSent (metrics (prune_loop ttl now es st)) = notificationsSent (metrics st) \<and>
   notificationsStored (metrics (prune_loop ttl now es st)) = notificationsStored (metrics st)"
  by (induction ttl now es st rule: prune_loop.induct) (simp_all add: Let_def)

lemmas prune_loop_fields [simp] =
  prune_loop_frame [THEN conjunct1]
  prune_loop_frame [THEN conjunct2, THEN conjunct1]
  prune_loop_frame [THEN conjunct2, THEN conjunct2, THEN conjunct1]
  prune_loop_frame [THEN conjunct2, THEN conjunct2, THEN conjunct2, THEN conjunct1]
  prune_loop_frame [THEN conjunct2, THEN conjunct2, THEN conjunct2, THEN conjunct2, THEN conjunct1]
  prune_loop_frame [THEN conjunct2, THEN conjunct2, THEN conjunct2, THEN conjunct2, THEN conjunct2, THEN conjunct1]
  prune_loop_frame [THEN conjunct2, THEN conjunct2, THEN conjunct2, THEN conjunct2, THEN conjunct2, THEN conjunct2]

lemma delete_middle:
  "s \<notin> fst ` set pre \<Longrightarrow> AList.delete s (pre @ (s, l) # es) = pre @ AList.delete s es"
  by (induction pre) auto

lemma update_middle:
  "s \<notin> fst ` set pre \<Longrightarrow> AList.update s v (pre @ (s, l) # es) = pre @ (s, v) # es"
  by (induction pre) auto

lemma length_filter_diff:
  "int (length l) - int (length (filter P l)) = int (length (filter (\<lambda>x. \<not> P x) l))"
  using sum_length_filter_compl [of P l] by simp

lemma evict_step:
  "(if int (length l) - int (length (filter P l)) > 0
    then st\<lparr>metrics := (metrics st)\<lparr>notificationsEvicted :=
           notificationsEvicted (metrics st) + (int (length l) - int (length (filter P l)))\<rparr>\<rparr>
    else st) =
   st\<lparr>metrics := (metrics st)\<lparr>notificationsEvicted :=
           notificationsEvicted (metrics st) + int (length (filter (\<lambda>x. \<not> P x) l))\<rparr>\<rparr>"
proof (cases "int (length l) - int (length (filter P l)) > 0")
  case True
  then show ?thesis by (simp only: if_True length_filter_diff)
next
  case False
  then have "int (length (filter (\<lambda>x. \<not> P x) l)) = 0"
    using length_filter_diff [of l P] by simp
  with False show ?thesis by simp
qed

lemma prune_loop_Cons:
  "prune_loop ttl now ((s, l) # es) st =
     prune_loop ttl now es
       (if filter (\<lambda>n. now - createdAt n \<le> ttl) l = []
        then st\<lparr>metrics := (metrics st)\<lparr>notificationsEvicted :=
                     notificationsEvicted (metrics st) +
                     int (length (filter (\<lambda>n. \<not> now - createdAt n \<le> ttl) l))\<rparr>,
                recentNotifications := AList.delete s (recentNotifications st)\<rparr>
        else st\<lparr>metrics := (metrics st)\<lparr>notificationsEvicted :=
                     notificationsEvicted (metrics st) +
                     int (length (filter (\<lambda>n. \<not> now - createdAt n \<le> ttl) l))\<rparr>,
                recentNotifications :=
                  AList.update s (filter (\<lambda>n. now - createdAt n \<le> ttl) l)
                    (recentNotifications st)\<rparr>)"
  unfolding prune_loop.simps Let_def evict_step by simp

lemma prune_loop_char:
  "distinct (map fst (pre @ es)) \<Longrightarrow> recentNotifications st = pre @ es \<Longrightarrow>
   recentNotifications (prune_loop ttl now es st) = pre @ spec_prune ttl now es \<and>
   notificationsEvicted (metrics (prune_loop ttl now es st)) =
     notificationsEvicted (metrics st) + spec_removed ttl now es"
proof (induction es arbitrary: pre st)
  case Nil
  then show ?case by (simp add: spec_prune_def spec_removed_def)
next
  case (Cons e es)
  obtain s l where e: "e = (s, l)" by (cases e)
  let ?f = "filter (\<lambda>n. now - createdAt n \<le> ttl) l"
  let ?ev = "int (length (filter (\<lambda>n. \<not> now - createdAt n \<le> ttl) l))"
  from Cons.prems e have notin: "s \<notin> fst ` set pre" "s \<notin> fst ` set es"
    and d: "distinct (map fst pre)" "distinct (map fst es)"
    and disj: "fst ` set pre \<inter> fst ` set es = {}"
    by auto
  show ?case
  proof (cases "?f = []")
    case True
    let ?st2 = "st\<lparr>metrics := (metrics st)\<lparr>notificationsEvicted :=
                   notificationsEvicted (metrics st) + ?ev\<rparr>,
                 recentNotifications := pre @ es\<rparr>"
    have step: "prune_loop ttl now (e # es) st = prune_loop ttl now es ?st2"
      using True Cons.prems(2) notin
      by (simp add: e prune_loop_Cons delete_middle del: prune_loop.simps)
    have "distinct (map fst (pre @ es))" using d disj by auto
    from Cons.IH [OF this, of ?st2] step True e
    show ?thesis by (simp add: spec_prune_def spec_removed_def)
  next
    case False
    let ?st2 = "st\<lparr>metrics := (metrics st)\<lparr>notificationsEvicted :=
                   notificationsEvicted (metrics st) + ?ev\<rparr>,
                 recentNotifications := (pre @ [(s, ?f)]) @ es\<rparr>"
    have step: "prune_loop ttl now (e # es) st = prune_loop ttl now es ?st2"
      using False Cons.prems(2) notin
      by (simp add: e prune_loop_Cons update_middle del: prune_loop.simps)
    have "distinct (map fst ((pre @ [(s, ?f)]) @ es))" using d disj notin by auto
    from Cons.IH [OF this, of ?st2] step False e
    show ?thesis by (simp add: spec_prune_def spec_removed_def)
  qed
qed

section \<open>Effects of the registry and store functions\<close>

subsection \<open>Broadcast\<close>

lemma broadcast_loop_fst:
  "fst (broadcast_loop ok p rs (k, st)) = k + int (length (filter ok rs))"
  by (induction rs arbitrary: k st) (auto simp: raw_write_def)

lemma broadcast_loop_connections:
  "connections (snd (broadcast_loop ok p rs (k, st))) = connections st"
  by (induction rs arbitrary: k st) (auto simp: raw_write_def)

lemma broadcast_loop_recent:
  "recentNotifications (snd (broadcast_loop ok p rs (k, st))) = recentNotifications st"
  by (induction rs arbitrary: k st) (auto simp: raw_write_def)

lemma broadcast_loop_metrics:
  "metrics (snd (broadcast_loop ok p rs (k, st))) = metrics st"
  by (induction rs arbitrary: k st) (auto simp: raw_write_def)

lemma broadcast_loop_ended:
  "ended (snd (broadcast_loop ok p rs (k, st))) = ended st"
  by (induction rs arbitrary: k st) (auto simp: raw_write_def)

lemma broadcast_loop_written:
  "written (snd (broadcast_loop ok p rs (k, st))) c =
     written st c @ (if ok c then replicate (count_list rs c) p else [])"
  by (induction rs arbitrary: k st) (auto simp: raw_write_def replicate_app_Cons_same)

lemmas broadcast_loop_simps =
  broadcast_loop_fst broadcast_loop_connections broadcast_loop_recent broadcast_loop_metrics
  broadcast_loop_ended broadcast_loop_written

lemma broadcastToStudent_fst:
  "fst (broadcastToStudent ok s p st) = int (length (filter ok (conns_of s st)))"
  by (auto simp: broadcastToStudent_def conns_of_def split_beta broadcast_loop_simps
      split: option.splits)

lemma broadcastToStudent_fields [simp]:
  "connections (snd (broadcastToStudent ok s p st)) = connections st"
  "recentNotifications (snd (broadcastToStudent ok s p st)) = recentNotifications st"
  "ended (snd (broadcastToStudent ok s p st)) = ended st"
  by (auto simp: broadcastToStudent_def split_beta broadcast_loop_simps split: option.splits)

lemma broadcastToStudent_metrics:
  "metrics (snd (broadcastToStudent ok s p st)) =
     (metrics st)\<lparr>notificationsSent :=
        notificationsSent (metrics st) + int (length (filter ok (conns_of s st)))\<rparr>"
  by (auto simp: broadcastToStudent_def conns_of_def split_beta broadcast_loop_simps
      split: option.splits)

lemma broadcastToStudent_written:
  "written (snd (broadcastToStudent ok s p st)) c =
     written st c @ (if ok c then replicate (count_list (conns_of s st) c) p else [])"
  by (auto simp: broadcastToStudent_def conns_of_def split_beta broadcast_loop_simps
      split: option.splits)

lemma conns_of_broadcast [simp]:
  "conns_of s' (snd (broadcastToStudent ok s p st)) = conns_of s' st"
  by (simp add: conns_of_def)

lemma history_of_broadcast [simp]:
  "history_of s' (snd (broadcastToStudent ok s p st)) = history_of s' st"
  by (simp add: history_of_def)

subsection \<open>Replay\<close>

lemma replay_loop_fields [simp]:
  "connections (replay_loop ok r ns st) = connections st"
  "recentNotifications (replay_loop ok r ns st) = recentNotifications st"
  "metrics (replay_loop ok r ns st) = metrics st"
  "ended (replay_loop ok r ns st) = ended st"
  by (induction ns arbitrary: st; simp)+

lemma replay_loop_written:
  "written (replay_loop ok r ns st) c =
     written st c @ (if c = r \<and> ok r then map (evt missed) ns else [])"
  by (induction ns arbitrary: st) auto

subsection \<open>Pruning\<close>

lemma prune_fields [simp]:
  "connections (pruneOldNotifications ttl now st) = connections st"
  "written (pruneOldNotifications ttl now st) = written st"
  "ended (pruneOldNotifications ttl now st) = ended st"
  "connectionsTotal (metrics (pruneOldNotifications ttl now st)) = connectionsTotal (metrics st)"
  "connectionsActive (metrics (pruneOldNotifications ttl now st)) = connectionsActive (metrics st)"
  "notificationsSent (metrics (pruneOldNotifications ttl now st)) = notificationsSent (metrics st)"
  "notificationsStored (metrics (pruneOldNotifications ttl now st)) = notificationsStored (metrics st)"
  by (simp_all add: pruneOldNotifications_def)

lemma prune_recent:
  "distinct (map fst (recentNotifications st)) \<Longrightarrow>
   recentNotifications (pruneOldNotifications ttl now st) =
     spec_prune ttl now (recentNotifications st)"
  using prune_loop_char [of "[]" "recentNotifications st" st ttl now]
  by (simp add: pruneOldNotifications_def)

lemma prune_evicted:
  "distinct (map fst (recentNotifications st)) \<Longrightarrow>
   notificationsEvicted (metrics (pruneOldNotifications ttl now st)) =
     notificationsEvicted (metrics st) + spec_removed ttl now (recentNotifications st)"
  using prune_loop_char [of "[]" "recentNotifications st" st ttl now]
  by (simp add: pruneOldNotifications_def)

lemma prune_loop_evicted_mono:
  "notificationsEvicted (metrics st) \<le> notificationsEvicted (metrics (prune_loop ttl now es st))"
proof (induction es arbitrary: st)
  case Nil
  then show ?case by simp
next
  case (Cons e es)
  obtain s l where e: "e = (s, l)" by (cases e)
  show ?case
    unfolding e prune_loop_Cons
    by (rule order_trans [OF _ Cons.IH]) simp
qed

lemma prune_evicted_mono:
  "notificationsEvicted (metrics st) \<le>
     notificationsEvicted (metrics (pruneOldNotifications ttl now st))"
  by (simp add: pruneOldNotifications_def prune_loop_evicted_mono)

lemma spec_prune_keys_notin:
  "s \<notin> fst ` set al \<Longrightarrow> map_of (spec_prune ttl now al) s = None"
  by (induction al) (auto simp: spec_prune_def)

lemma map_of_spec_prune:
  "distinct (map fst al) \<Longrightarrow>
   map_of (spec_prune ttl now al) s =
     (case map_of al s of
        None \<Rightarrow> None
      | Some l \<Rightarrow> (if filter (\<lambda>n. now - createdAt n \<le> ttl) l = [] then None
                   else Some (filter (\<lambda>n. now - createdAt n \<le> ttl) l)))"
proof (induction al)
  case Nil
  then show ?case by (simp add: spec_prune_def)
next
  case (Cons e al)
  obtain k l where e: "e = (k, l)" by (cases e)
  from Cons.prems e have k: "k \<notin> fst ` set al" and d: "distinct (map fst al)" by auto
  have unfold: "spec_prune ttl now ((k, l) # al) =
      (if filter (\<lambda>n. now - createdAt n \<le> ttl) l = [] then spec_prune ttl now al
       else (k, filter (\<lambda>n. now - createdAt n \<le> ttl) l) # spec_prune ttl now al)"
    by (simp add: spec_prune_def)
  show ?case
  proof (cases "s = k")
    case True
    then show ?thesis
      using spec_prune_keys_notin [OF k, of ttl now] by (simp add: unfold e)
  next
    case False
    then show ?thesis using Cons.IH [OF d] by (simp add: unfold e)
  qed
qed

lemma distinct_spec_prune:
  "distinct (map fst al) \<Longrightarrow> distinct (map fst (spec_prune ttl now al))"
proof -
  have "map fst (spec_prune ttl now al) =
        map fst (filter (\<lambda>(s, l). filter (\<lambda>n. now - createdAt n \<le> ttl) l \<noteq> []) al)"
    by (induction al) (auto simp: spec_prune_def)
  then show "distinct (map fst al) \<Longrightarrow> ?thesis"
    by (simp add: distinct_map_filter)
qed

lemma history_of_prune:
  "distinct (map fst (recentNotifications st)) \<Longrightarrow>
   history_of s (pruneOldNotifications ttl now st) =
     filter (\<lambda>n. now - createdAt n \<le> ttl) (history_of s st)"
  by (simp add: history_of_def prune_recent map_of_spec_prune split: option.splits)

lemma conns_of_prune [simp]:
  "conns_of s (pruneOldNotifications ttl now st) = conns_of s st"
  by (simp add: conns_of_def)

subsection \<open>Register and unregister\<close>

text \<open>The set that \<open>registerConnection\<close> stores: the oldest reply dropped when the limit is reached.\<close>

lemma registerConnection_connections:
  "connections (registerConnection maxc s r st) =
     AList.update s
       (set_add r (if maxc \<le> length (conns_of s st)
                   then (case conns_of s st of [] \<Rightarrow> [] | oldest # _ \<Rightarrow> removeAll oldest (conns_of s st))
                   else conns_of s st))
       (connections st)"
  by (simp add: registerConnection_def Let_def split: list.splits)

lemma conns_of_register:
  "conns_of s' (registerConnection maxc s r st) =
     (if s' = s
      then set_add r (if maxc \<le> length (conns_of s st)
                      then (case conns_of s st of [] \<Rightarrow> [] | oldest # _ \<Rightarrow> removeAll oldest (conns_of s st))
                      else conns_of s st)
      else conns_of s' st)"
  unfolding conns_of_def [of s' "registerConnection maxc s r st"] registerConnection_connections
  by (simp add: update_conv' conns_of_def)

lemma registerConnection_fields [simp]:
  "recentNotifications (registerConnection maxc s r st) = recentNotifications st"
  "written (registerConnection maxc s r st) = written st"
  "connectionsTotal (metrics (registerConnection maxc s r st)) = connectionsTotal (metrics st) + 1"
  "notificationsSent (metrics (registerConnection maxc s r st)) = notificationsSent (metrics st)"
  "notificationsStored (metrics (registerConnection maxc s r st)) = notificationsStored (metrics st)"
  "notificationsEvicted (metrics (registerConnection maxc s r st)) = notificationsEvicted (metrics st)"
  by (simp_all add: registerConnection_def Let_def split: list.splits)

lemma registerConnection_active:
  "connectionsActive (metrics (registerConnection maxc s r st)) =
     (if maxc \<le> length (conns_of s st) \<and> conns_of s st \<noteq> []
      then max 0 (connectionsActive (metrics st) - 1) + 1
      else connectionsActive (metrics st) + 1)"
  by (simp add: registerConnection_def Let_def split: list.splits)

lemma registerConnection_ended:
  "ended (registerConnection maxc s r st) =
     (if maxc \<le> length (conns_of s st) \<and> conns_of s st \<noteq> []
      then ended st @ [hd (conns_of s st)] else ended st)"
  by (simp add: registerConnection_def Let_def split: list.splits)

lemma history_of_register [simp]:
  "history_of s' (registerConnection maxc s r st) = history_of s' st"
  by (simp add: history_of_def)

lemma unregisterConnection_fields [simp]:
  "recentNotifications (unregisterConnection s r st) = recentNotifications st"
  "written (unregisterConnection s r st) = written st"
  "ended (unregisterConnection s r st) = ended st"
  "connectionsTotal (metrics (unregisterConnection s r st)) = connectionsTotal (metrics st)"
  "notificationsSent (metrics (unregisterConnection s r st)) = notificationsSent (metrics st)"
  "notificationsStored (metrics (unregisterConnection s r st)) = notificationsStored (metrics st)"
  "notificationsEvicted (metrics (unregisterConnection s r st)) = notificationsEvicted (metrics st)"
  by (simp_all add: unregisterConnection_def Let_def split: option.splits)

lemma unregisterConnection_active:
  "connectionsActive (metrics (unregisterConnection s r st)) =
     (if r \<in> set (conns_of s st) then max 0 (connectionsActive (metrics st) - 1)
      else connectionsActive (metrics st))"
  by (simp add: unregisterConnection_def conns_of_def Let_def split: option.splits)

lemma unregisterConnection_connections:
  "connections (unregisterConnection s r st) =
     (case map_of (connections st) s of
        None \<Rightarrow> connections st
      | Some rs \<Rightarrow> if removeAll r rs = [] then AList.delete s (connections st)
                   else AList.update s (removeAll r rs) (connections st))"
  by (simp add: unregisterConnection_def Let_def split: option.splits)

lemma conns_of_unregister:
  "conns_of s' (unregisterConnection s r st) =
     (if s' = s then removeAll r (conns_of s st) else conns_of s' st)"
  unfolding conns_of_def [of s' "unregisterConnection s r st"] unregisterConnection_connections
  by (simp add: conns_of_def update_conv' delete_conv' split: option.splits)

lemma history_of_unregister [simp]:
  "history_of s' (unregisterConnection s r st) = history_of s' st"
  by (simp add: history_of_def)

lemma unregister_absent:
  "r \<notin> set (conns_of s st) \<Longrightarrow> conns_of s st \<noteq> [] \<or> map_of (connections st) s = None \<Longrightarrow>
   unregisterConnection s r st = st"
  by (auto simp: unregisterConnection_def conns_of_def Let_def update_triv split: option.splits)

subsection \<open>Store and handlers\<close>

lemma addRecentNotification_fields [simp]:
  "connections (addRecentNotification ttl now n st) = connections st"
  "written (addRecentNotification ttl now n st) = written st"
  "ended (addRecentNotification ttl now n st) = ended st"
  "connectionsTotal (metrics (addRecentNotification ttl now n st)) = connectionsTotal (metrics st)"
  "connectionsActive (metrics (addRecentNotification ttl now n st)) = connectionsActive (metrics st)"
  "notificationsSent (metrics (addRecentNotification ttl now n st)) = notificationsSent (metrics st)"
  "notificationsStored (metrics (addRecentNotification ttl now n st)) =
     notificationsStored (metrics st) + 1"
  by (simp_all add: addRecentNotification_def Let_def)

lemma addRecentNotification_evicted_mono:
  "notificationsEvicted (metrics st) \<le>
     notificationsEvicted (metrics (addRecentNotification ttl now n st))"
  unfolding addRecentNotification_def Let_def
  by (rule order_trans [OF _ prune_evicted_mono]) simp

lemma conns_of_append [simp]:
  "conns_of s (addRecentNotification ttl now n st) = conns_of s st"
  by (simp add: conns_of_def)

lemma registry_kept_refl [simp]: "registry_kept st st"
  by (simp add: registry_kept_def)

lemma registry_kept_trans:
  "registry_kept st st' \<Longrightarrow> registry_kept st' st'' \<Longrightarrow> registry_kept st st''"
  by (simp add: registry_kept_def)

lemma counters_mono_refl [simp]: "counters_mono st st"
  by (simp add: counters_mono_def)

lemma counters_mono_trans:
  "counters_mono st st' \<Longrightarrow> counters_mono st' st'' \<Longrightarrow> counters_mono st st''"
  by (auto simp: counters_mono_def)

lemma registry_kept_prune: "registry_kept st (pruneOldNotifications ttl now st)"
  by (simp add: registry_kept_def)

lemma counters_mono_prune: "counters_mono st (pruneOldNotifications ttl now st)"
  by (simp add: counters_mono_def prune_evicted_mono)

lemma registry_kept_append: "registry_kept st (addRecentNotification ttl now n st)"
  by (simp add: registry_kept_def)

lemma counters_mono_append: "counters_mono st (addRecentNotification ttl now n st)"
  by (simp add: counters_mono_def addRecentNotification_evicted_mono)

lemma registry_kept_broadcast: "registry_kept st (snd (broadcastToStudent ok s p st))"
  by (simp add: registry_kept_def broadcastToStudent_metrics)

lemma counters_mono_broadcast: "counters_mono st (snd (broadcastToStudent ok s p st))"
  by (simp add: counters_mono_def broadcastToStudent_metrics)

lemma store_kept_broadcast: "store_kept st (snd (broadcastToStudent ok s p st))"
  by (simp add: store_kept_def broadcastToStudent_metrics)

lemma registry_kept_raw_write: "registry_kept st (snd (raw_write ok r f st))"
  by (simp add: registry_kept_def)

lemma counters_mono_raw_write: "counters_mono st (snd (raw_write ok r f st))"
  by (simp add: counters_mono_def)

lemma registry_kept_publish_one: "registry_kept st (snd (publish_one ok ttl s m env st))"
  unfolding publish_one_def Let_def snd_conv
  by (rule registry_kept_trans [OF registry_kept_append registry_kept_broadcast])

lemma counters_mono_publish_one: "counters_mono st (snd (publish_one ok ttl s m env st))"
  unfolding publish_one_def Let_def snd_conv
  by (rule counters_mono_trans [OF counters_mono_append counters_mono_broadcast])

lemma registry_kept_publish: "registry_kept st (snd (publish ok ttl b env st))"
  using registry_kept_publish_one
  by (simp add: publish_def Let_def split_beta)

lemma counters_mono_publish: "counters_mono st (snd (publish ok ttl b env st))"
  using counters_mono_publish_one
  by (simp add: publish_def Let_def split_beta)

lemma batch_loop_kept:
  "registry_kept st (snd (batch_loop ok ttl envs i ps (results, st))) \<and>
   counters_mono st (snd (batch_loop ok ttl envs i ps (results, st)))"
proof (induction ps arbitrary: i results st)
  case Nil
  then show ?case by simp
next
  case (Cons p ps)
  show ?case
  proof (cases "falsy (body_studentId p) \<or> falsy (body_message p)")
    case True
    then show ?thesis using Cons.IH by simp
  next
    case False
    obtain n st' where po: "publish_one ok ttl (the_string (body_studentId p))
        (the_string (body_message p)) (envs i) st = (n, st')"
      by (cases "publish_one ok ttl (the_string (body_studentId p))
        (the_string (body_message p)) (envs i) st")
    have k: "registry_kept st st'" and m: "counters_mono st st'"
      using registry_kept_publish_one [of st ok ttl "the_string (body_studentId p)"
          "the_string (body_message p)" "envs i"]
        counters_mono_publish_one [of st ok ttl "the_string (body_studentId p)"
          "the_string (body_message p)" "envs i"]
      by (simp_all add: po)
    from False po show ?thesis
      using Cons.IH [where i = "Suc i" and st = st'
            and results = "results @ [(nid n, the_string (body_studentId p))]"]
        registry_kept_trans [OF k] counters_mono_trans [OF m]
      by simp
  qed
qed

lemma registry_kept_publish_batch: "registry_kept st (snd (publish_batch ok ttl b envs st))"
  using batch_loop_kept
  by (simp add: publish_batch_def split_beta split: option.splits)

lemma counters_mono_publish_batch: "counters_mono st (snd (publish_batch ok ttl b envs st))"
  using batch_loop_kept
  by (simp add: publish_batch_def split_beta split: option.splits)

lemma replay_missed_fields [simp]:
  "connections (replay_missed ok ttl s r now st) = connections st"
  "ended (replay_missed ok ttl s r now st) = ended st"
  "metrics (replay_missed ok ttl s r now st) = metrics (pruneOldNotifications ttl now st)"
  "recentNotifications (replay_missed ok ttl s r now st) =
     recentNotifications (pruneOldNotifications ttl now st)"
  by (simp_all add: replay_missed_def Let_def)

lemma replay_missed_written:
  "written (replay_missed ok ttl s r now st) c =
     written st c @
     (if c = r \<and> ok r then map (evt missed) (history_of s (pruneOldNotifications ttl now st))
      else [])"
  by (simp add: replay_missed_def Let_def replay_loop_written)

lemma registry_kept_replay: "registry_kept st (replay_missed ok ttl s r now st)"
  by (simp add: registry_kept_def)

lemma counters_mono_replay: "counters_mono st (replay_missed ok ttl s r now st)"
  by (simp add: counters_mono_def prune_evicted_mono)

lemma counters_mono_register: "counters_mono st (registerConnection maxc s r st)"
  by (simp add: counters_mono_def)

lemma counters_mono_unregister: "counters_mono st (unregisterConnection s r st)"
  by (simp add: counters_mono_def)

text \<open>An accepted \<open>/sse\<close> request is a registration followed by steps that keep the registry.\<close>

lemma sse_accepted:
  "\<not> falsy q \<Longrightarrow>
   sse ok ttl maxc q r conn_now now st =
     (if ok r
      then (StreamOpen,
            replay_missed ok ttl (the_string q) r now
              (snd (raw_write ok r (Connected conn_now)
                 (registerConnection maxc (the_string q) r st))))
      else (Threw, registerConnection maxc (the_string q) r st))"
  by (simp add: sse_def Let_def raw_write_def)

lemma sse_after_register:
  "\<not> falsy q \<Longrightarrow>
   registry_kept (registerConnection maxc (the_string q) r st)
     (snd (sse ok ttl maxc q r conn_now now st)) \<and>
   counters_mono (registerConnection maxc (the_string q) r st)
     (snd (sse ok ttl maxc q r conn_now now st))"
  using registry_kept_trans [OF registry_kept_raw_write registry_kept_replay]
    counters_mono_trans [OF counters_mono_raw_write counters_mono_replay]
  by (simp add: sse_accepted)

lemma sse_rejected: "falsy q \<Longrightarrow> sse ok ttl maxc q r conn_now now st =
    (Reply 400 (Error ''studentId is required''), st)"
  by (simp add: sse_def)

lemma counters_mono_sse: "counters_mono st (snd (sse ok ttl maxc q r conn_now now st))"
proof (cases "falsy q")
  case True
  then show ?thesis by (simp add: sse_rejected)
next
  case False
  from sse_after_register [OF False] counters_mono_register
  show ?thesis by (blast intro: counters_mono_trans)
qed

lemma counters_mono_apply_op: "counters_mono st (apply_op ok ttl maxc st x)"
  by (cases x)
    (simp_all add: counters_mono_register counters_mono_unregister counters_mono_broadcast
      counters_mono_append counters_mono_prune counters_mono_publish
      counters_mono_publish_batch counters_mono_sse)

section \<open>Prune correctness\<close>

lemma spec_removed_count:
  "spec_removed ttl now al =
     int (sum_list (map (\<lambda>(s, l). length l) al)) -
     int (sum_list (map (\<lambda>(s, l). length l) (spec_prune ttl now al)))"
proof (induction al)
  case Nil
  then show ?case by (simp add: spec_removed_def spec_prune_def)
next
  case (Cons e al)
  obtain k l where e: "e = (k, l)" by (cases e)
  have "spec_removed ttl now ((k, l) # al) =
      int (length (filter (\<lambda>n. \<not> now - createdAt n \<le> ttl) l)) + spec_removed ttl now al"
    by (simp add: spec_removed_def)
  moreover have "int (sum_list (map (\<lambda>(s, l). length l) (spec_prune ttl now ((k, l) # al)))) =
      int (length (filter (\<lambda>n. now - createdAt n \<le> ttl) l)) +
      int (sum_list (map (\<lambda>(s, l). length l) (spec_prune ttl now al)))"
    by (simp add: spec_prune_def)
  ultimately show ?case
    using Cons.IH length_filter_diff [of l "\<lambda>n. now - createdAt n \<le> ttl"]
    by (simp add: e)
qed

text \<open>
  C5. On a store whose keys are distinct (as the keys of a \<open>Map\<close> are),
  \<open>pruneOldNotifications(now)\<close> computes the specification's prune: every history keeps
  exactly its entries with \<open>now - createdAt \<le> NOTIFICATION_TTL_MS\<close>, in their order, so
  every remaining entry is within the retention window; a recipient whose history becomes
  empty has no key afterwards, and no key maps to an empty history; and
  \<open>notificationsEvicted\<close> grows by exactly the number of entries removed, which is the
  number of stored entries before minus the number after.
\<close>

theorem prune_correct:
  assumes "distinct (map fst (recentNotifications st))"
  shows "recentNotifications (pruneOldNotifications ttl now st) =
           spec_prune ttl now (recentNotifications st)
       \<and> (\<forall>s. history_of s (pruneOldNotifications ttl now st) =
                filter (\<lambda>n. now - createdAt n \<le> ttl) (history_of s st))
       \<and> (\<forall>s n. n \<in> set (history_of s (pruneOldNotifications ttl now st)) \<longrightarrow>
                now - createdAt n \<le> ttl)
       \<and> (\<forall>s. filter (\<lambda>n. now - createdAt n \<le> ttl) (history_of s st) = [] \<longrightarrow>
                map_of (recentNotifications (pruneOldNotifications ttl now st)) s = None)
       \<and> (\<forall>s l. map_of (recentNotifications (pruneOldNotifications ttl now st)) s = Some l \<longrightarrow>
                l \<noteq> [])
       \<and> notificationsEvicted (metrics (pruneOldNotifications ttl now st)) =
           notificationsEvicted (metrics st) + spec_removed ttl now (recentNotifications st)
       \<and> spec_removed ttl now (recentNotifications st) =
           int (total_stored st) - int (total_stored (pruneOldNotifications ttl now st))"
proof -
  let ?st' = "pruneOldNotifications ttl now st"
  have r: "recentNotifications ?st' = spec_prune ttl now (recentNotifications st)"
    by (rule prune_recent [OF assms])
  have h: "\<And>s. history_of s ?st' = filter (\<lambda>n. now - createdAt n \<le> ttl) (history_of s st)"
    by (rule history_of_prune [OF assms])
  have fresh: "\<And>s n. n \<in> set (history_of s ?st') \<Longrightarrow> now - createdAt n \<le> ttl"
    by (simp add: h)
  have gone: "\<And>s. filter (\<lambda>n. now - createdAt n \<le> ttl) (history_of s st) = [] \<Longrightarrow>
      map_of (recentNotifications ?st') s = None"
    unfolding r map_of_spec_prune [OF assms] history_of_def
    by (auto split: option.splits)
  have nonempty: "\<And>s l. map_of (recentNotifications ?st') s = Some l \<Longrightarrow> l \<noteq> []"
    unfolding r map_of_spec_prune [OF assms]
    by (auto split: option.splits if_splits)
  have ev: "notificationsEvicted (metrics ?st') =
      notificationsEvicted (metrics st) + spec_removed ttl now (recentNotifications st)"
    by (rule prune_evicted [OF assms])
  have cnt: "spec_removed ttl now (recentNotifications st) =
      int (total_stored st) - int (total_stored ?st')"
    unfolding total_stored_def r by (rule spec_removed_count)
  from r h fresh gone nonempty ev cnt show ?thesis by blast
qed

theorem prune_correct_witness:
  "distinct (map fst (recentNotifications store_example))
   \<and> recentNotifications (pruneOldNotifications 100 1000 store_example) = [(''s1'', [n_new])]
   \<and> history_of ''s1'' (pruneOldNotifications 100 1000 store_example) = [n_new]
   \<and> map_of (recentNotifications (pruneOldNotifications 100 1000 store_example)) ''s2'' = None
   \<and> notificationsEvicted (metrics (pruneOldNotifications 100 1000 store_example)) = 2
   \<and> int (total_stored store_example) -
       int (total_stored (pruneOldNotifications 100 1000 store_example)) = 2"
  using prune_correct [of store_example 100 1000]
  by (simp add: store_example_def init_state_def spec_prune_def spec_removed_def history_of_def
      n_old_def n_new_def n_other_def)

section \<open>Metrics counters\<close>

lemma active_nonneg_apply_op:
  assumes nonneg: "0 \<le> connectionsActive (metrics st)"
  shows "0 \<le> connectionsActive (metrics (apply_op ok ttl maxc st x))"
proof (cases x)
  case (Register s r)
  with nonneg show ?thesis by (simp add: registerConnection_active)
next
  case (Unregister s r)
  with nonneg show ?thesis by (simp add: unregisterConnection_active)
next
  case (Broadcast s p)
  with nonneg show ?thesis using registry_kept_broadcast [of st ok s p] by (simp add: registry_kept_def)
next
  case (Append n now)
  with nonneg show ?thesis by simp
next
  case (Prune now)
  with nonneg show ?thesis by simp
next
  case (Publish b env)
  with nonneg show ?thesis using registry_kept_publish [of st ok ttl b env] by (simp add: registry_kept_def)
next
  case (PublishBatch b envs)
  with nonneg show ?thesis
    using registry_kept_publish_batch [of st ok ttl b envs] by (simp add: registry_kept_def)
next
  case (Subscribe q r conn_now now)
  show ?thesis
  proof (cases "falsy q")
    case True
    with nonneg show ?thesis using Subscribe by (simp add: sse_rejected)
  next
    case False
    have "0 \<le> connectionsActive (metrics (registerConnection maxc (the_string q) r st))"
      using nonneg by (simp add: registerConnection_active)
    with sse_after_register [OF False, of maxc r st ok ttl conn_now now] Subscribe
    show ?thesis by (simp add: registry_kept_def)
  qed
next
  case (OnClose s r)
  with nonneg show ?thesis by (simp add: unregisterConnection_active)
next
  case (CleanupTick now)
  with nonneg show ?thesis by simp
qed

lemma run_Cons: "run ok ttl maxc st (x # xs) = run ok ttl maxc (apply_op ok ttl maxc st x) xs"
  by (simp add: run_def)

lemma run_Nil: "run ok ttl maxc st [] = st"
  by (simp add: run_def)

lemma counters_mono_run: "counters_mono st (run ok ttl maxc st ops)"
proof (induction ops arbitrary: st)
  case Nil
  then show ?case by (simp add: run_Nil)
next
  case (Cons x xs)
  show ?case
    unfolding run_Cons
    by (rule counters_mono_trans [OF counters_mono_apply_op Cons.IH])
qed

lemma active_nonneg_run:
  "0 \<le> connectionsActive (metrics st) \<Longrightarrow> 0 \<le> connectionsActive (metrics (run ok ttl maxc st ops))"
  by (induction ops arbitrary: st) (simp_all add: run_Nil run_Cons active_nonneg_apply_op)

text \<open>
  C4, as stated, fails: \<open>connectionsActive\<close> goes down. After one registration it is 1, and
  the \<open>unregisterConnection\<close> of that reply brings it back to 0.
\<close>

theorem active_count_decreases:
  "connectionsActive (metrics (run all_ok 100 3 init_state [Register ''s1'' 1])) = 1
   \<and> connectionsActive (metrics (run all_ok 100 3 init_state
         [Register ''s1'' 1, Unregister ''s1'' 1])) = 0"
  by (simp add: run_def registerConnection_def unregisterConnection_def conns_of_def set_add_def
      init_state_def Let_def)

text \<open>
  C4, amended. Over any sequence of operations of the system, from any state, the four
  counters \<open>connectionsTotal\<close>, \<open>notificationsSent\<close>, \<open>notificationsStored\<close> and
  \<open>notificationsEvicted\<close> never decrease; \<open>connectionsActive\<close> is a gauge that goes down on
  unregistration and eviction, and it never becomes negative.
\<close>

theorem counters_monotone:
  "counters_mono st (run ok ttl maxc st ops)
   \<and> (0 \<le> connectionsActive (metrics st) \<longrightarrow>
        0 \<le> connectionsActive (metrics (run ok ttl maxc st ops)))"
  by (simp add: counters_mono_run active_nonneg_run)

theorem counters_monotone_witness:
  "0 \<le> connectionsActive (metrics init_state)
   \<and> counters_mono init_state
        (run all_ok 100 3 init_state
           [Register ''s1'' 1, Publish (Some body_example) env_example, Unregister ''s1'' 1,
            CleanupTick 2000])
   \<and> 0 \<le> connectionsActive (metrics
        (run all_ok 100 3 init_state
           [Register ''s1'' 1, Publish (Some body_example) env_example, Unregister ''s1'' 1,
            CleanupTick 2000]))"
  using counters_monotone [of init_state all_ok 100 3
      "[Register ''s1'' 1, Publish (Some body_example) env_example, Unregister ''s1'' 1,
        CleanupTick 2000]"]
  by (simp add: init_state_def)

section \<open>Where pruning runs\<close>

lemma addRecentNotification_recent:
  assumes "distinct (map fst (recentNotifications st))"
  shows "recentNotifications (addRecentNotification ttl now n st) =
     spec_prune ttl now
       (AList.update (studentId n) (history_of (studentId n) st @ [n]) (recentNotifications st))"
    and "notificationsEvicted (metrics (addRecentNotification ttl now n st)) =
     notificationsEvicted (metrics st) +
     spec_removed ttl now
       (AList.update (studentId n) (history_of (studentId n) st @ [n]) (recentNotifications st))"
  using assms
  by (simp_all add: addRecentNotification_def Let_def prune_recent prune_evicted distinct_update)

lemma publish_one_store:
  assumes "distinct (map fst (recentNotifications st))"
  shows "recentNotifications (snd (publish_one ok ttl s m env st)) =
     spec_prune ttl (prune_now env)
       (AList.update s (history_of s st @ [make_notification s m env]) (recentNotifications st))"
    and "notificationsEvicted (metrics (snd (publish_one ok ttl s m env st))) =
     notificationsEvicted (metrics st) +
     spec_removed ttl (prune_now env)
       (AList.update s (history_of s st @ [make_notification s m env]) (recentNotifications st))"
  using addRecentNotification_recent [OF assms, of ttl "prune_now env" "make_notification s m env"]
  by (simp_all add: publish_one_def Let_def broadcastToStudent_metrics make_notification_def)

lemma sse_store:
  assumes "distinct (map fst (recentNotifications st))" and "\<not> falsy q"
  shows "recentNotifications (snd (sse ok ttl maxc q r conn_now now st)) =
     (if ok r then spec_prune ttl now (recentNotifications st) else recentNotifications st)"
    and "notificationsEvicted (metrics (snd (sse ok ttl maxc q r conn_now now st))) =
     notificationsEvicted (metrics st) +
     (if ok r then spec_removed ttl now (recentNotifications st) else 0)"
  using assms
  by (simp_all add: sse_accepted prune_recent prune_evicted)

text \<open>
  C3, as stated, fails: an accepted \<open>/publish\<close> removes stored notifications and raises
  \<open>notificationsEvicted\<close>. With a retention window of 100 and the clock at 1000, publishing
  to \<open>s1\<close> evicts the two entries created at 0 and 10, the whole history of \<open>s2\<close> among them.
\<close>

theorem publish_prunes:
  "notificationsEvicted (metrics store_example) = 0
   \<and> history_of ''s2'' store_example = [n_other]
   \<and> notificationsEvicted (metrics
        (snd (publish all_ok 100 (Some body_example) env_example store_example))) = 2
   \<and> history_of ''s2''
        (snd (publish all_ok 100 (Some body_example) env_example store_example)) = []"
proof -
  have d: "distinct (map fst (recentNotifications store_example))"
    by (simp add: store_example_def init_state_def)
  have p: "snd (publish all_ok 100 (Some body_example) env_example store_example) =
      snd (publish_one all_ok 100 ''s1'' ''New grade posted'' env_example store_example)"
    by (simp add: publish_def body_example_def falsy_def the_string_def split_beta)
  show ?thesis
    unfolding p history_of_def publish_one_store [OF d]
    by (simp add: store_example_def init_state_def spec_prune_def spec_removed_def
        env_example_def make_notification_def n_old_def n_new_def n_other_def)
qed

text \<open>
  C3, amended. Stored notifications are removed, and \<open>notificationsEvicted\<close> raised, only by
  \<open>pruneOldNotifications\<close>, and that runs in three places: on the cleanup timer, at the end
  of every accepted publish (single, or one entry of a batch: \<open>publish_one\<close>), after the
  append, and in every accepted subscribe whose opening write succeeds, before the replay.
  Each run removes exactly the entries older than the retention window at its clock
  reading and adds their number to \<open>notificationsEvicted\<close>. Register, unregister and
  broadcast leave the store and \<open>notificationsEvicted\<close> as they are.
\<close>

theorem pruning_sites:
  "store_kept st (registerConnection maxc s r st)
   \<and> store_kept st (unregisterConnection s r st)
   \<and> store_kept st (snd (broadcastToStudent ok s p st))
   \<and> (distinct (map fst (recentNotifications st)) \<longrightarrow>
        recentNotifications (apply_op ok ttl maxc st (CleanupTick now)) =
          spec_prune ttl now (recentNotifications st)
        \<and> notificationsEvicted (metrics (apply_op ok ttl maxc st (CleanupTick now))) =
          notificationsEvicted (metrics st) + spec_removed ttl now (recentNotifications st))
   \<and> (distinct (map fst (recentNotifications st)) \<longrightarrow>
        recentNotifications (snd (publish_one ok ttl s m env st)) =
          spec_prune ttl (prune_now env)
            (AList.update s (history_of s st @ [make_notification s m env])
               (recentNotifications st))
        \<and> notificationsEvicted (metrics (snd (publish_one ok ttl s m env st))) =
          notificationsEvicted (metrics st) +
          spec_removed ttl (prune_now env)
            (AList.update s (history_of s st @ [make_notification s m env])
               (recentNotifications st)))
   \<and> (distinct (map fst (recentNotifications st)) \<and> \<not> falsy q \<longrightarrow>
        recentNotifications (snd (sse ok ttl maxc q r conn_now now st)) =
          (if ok r then spec_prune ttl now (recentNotifications st) else recentNotifications st)
        \<and> notificationsEvicted (metrics (snd (sse ok ttl maxc q r conn_now now st))) =
          notificationsEvicted (metrics st) +
          (if ok r then spec_removed ttl now (recentNotifications st) else 0))"
proof -
  have a: "store_kept st (registerConnection maxc s r st)"
    and b: "store_kept st (unregisterConnection s r st)"
    by (simp_all add: store_kept_def)
  have c: "store_kept st (snd (broadcastToStudent ok s p st))"
    by (rule store_kept_broadcast)
  show ?thesis
    using a b c publish_one_store [of st ok ttl s m env] sse_store [of st q ok ttl maxc r conn_now now]
      prune_recent [of st ttl now] prune_evicted [of st ttl now]
    by simp
qed

theorem pruning_sites_witness:
  "distinct (map fst (recentNotifications store_example)) \<and> \<not> falsy (Some ''s2'')
   \<and> store_kept store_example (registerConnection 3 ''s1'' 1 store_example)
   \<and> recentNotifications (apply_op all_ok 100 3 store_example (CleanupTick 1000)) =
       [(''s1'', [n_new])]
   \<and> recentNotifications (snd (sse all_ok 100 3 (Some ''s2'') 1 1000 1000 store_example)) =
       [(''s1'', [n_new])]
   \<and> notificationsEvicted (metrics
       (snd (sse all_ok 100 3 (Some ''s2'') 1 1000 1000 store_example))) = 2
   \<and> notificationsEvicted (metrics
       (snd (publish_one all_ok 100 ''s1'' ''New grade posted'' env_example store_example))) = 2"
  using pruning_sites [where st = store_example and maxc = 3 and s = "''s1''" and r = 1
      and ok = all_ok and m = "''New grade posted''" and ttl = 100 and now = 1000
      and env = env_example and q = "Some ''s2''" and conn_now = 1000]
  by (simp add: store_example_def init_state_def spec_prune_def spec_removed_def falsy_def
      all_ok_def env_example_def make_notification_def history_of_def
      n_old_def n_new_def n_other_def)

section \<open>Broadcast\<close>

lemma count_list_distinct:
  "distinct xs \<Longrightarrow> count_list xs c = (if c \<in> set xs then 1 else 0)"
  by (induction xs) auto

lemma broadcast_no_connections:
  "conns_of s st = [] \<Longrightarrow> broadcastToStudent ok s p st = (0, st)"
  by (auto simp: broadcastToStudent_def conns_of_def split: option.splits)

text \<open>
  C6. \<open>broadcastToStudent\<close> writes the payload once to every reply registered for the
  student whose write does not throw, whatever the other replies of the set do; the
  registry is unchanged afterwards, so a reply whose write failed stays registered; the
  function always returns a number, the count of the writes that went through, and raises
  \<open>notificationsSent\<close> by that number; with no replies for the student it returns 0 and
  changes nothing.
\<close>

theorem broadcast_isolation:
  assumes "distinct (conns_of s st)"
  shows "fst (broadcastToStudent ok s p st) = int (length (filter ok (conns_of s st)))
       \<and> (\<forall>c. written (snd (broadcastToStudent ok s p st)) c =
                (if c \<in> set (conns_of s st) \<and> ok c then written st c @ [p] else written st c))
       \<and> connections (snd (broadcastToStudent ok s p st)) = connections st
       \<and> notificationsSent (metrics (snd (broadcastToStudent ok s p st))) =
           notificationsSent (metrics st) + fst (broadcastToStudent ok s p st)
       \<and> (conns_of s st = [] \<longrightarrow> broadcastToStudent ok s p st = (0, st))"
proof -
  have w: "\<And>c. written (snd (broadcastToStudent ok s p st)) c =
      (if c \<in> set (conns_of s st) \<and> ok c then written st c @ [p] else written st c)"
    by (simp add: broadcastToStudent_written count_list_distinct [OF assms])
  show ?thesis
    using w broadcast_no_connections [of s st ok p]
    by (simp add: broadcastToStudent_fst broadcastToStudent_metrics)
qed

theorem broadcast_isolation_witness:
  "distinct (conns_of ''r'' two_channels)
   \<and> conns_of ''r'' two_channels = [1, 2] \<and> c2_fails 1 \<and> \<not> c2_fails 2
   \<and> fst (broadcastToStudent c2_fails ''r'' (Data live ''7-x'' ''x'' 7) two_channels) = 1
   \<and> written (snd (broadcastToStudent c2_fails ''r'' (Data live ''7-x'' ''x'' 7) two_channels)) 1 =
       [Data live ''7-x'' ''x'' 7]
   \<and> written (snd (broadcastToStudent c2_fails ''r'' (Data live ''7-x'' ''x'' 7) two_channels)) 2 = []
   \<and> conns_of ''r'' (snd (broadcastToStudent c2_fails ''r'' (Data live ''7-x'' ''x'' 7) two_channels)) =
       [1, 2]
   \<and> notificationsSent (metrics
       (snd (broadcastToStudent c2_fails ''r'' (Data live ''7-x'' ''x'' 7) two_channels))) = 1"
  using broadcast_isolation [of "''r''" two_channels c2_fails "Data live ''7-x'' ''x'' 7"]
  by (simp add: two_channels_def init_state_def conns_of_def c2_fails_def)

section \<open>Disconnect\<close>

lemma length_le_total:
  "map_of al k = Some v \<Longrightarrow> length v \<le> sum_list (map (\<lambda>(s, rs). length rs) al)"
  by (induction al) (auto split: if_splits)

lemma present_active_pos:
  assumes "connectionsActive (metrics st) = int (total_connections st)"
    and "r \<in> set (conns_of s st)"
  shows "1 \<le> connectionsActive (metrics st)"
proof -
  from assms(2) obtain v where v: "map_of (connections st) s = Some v" and "r \<in> set v"
    by (cases "map_of (connections st) s") (auto simp: conns_of_def)
  then have "1 \<le> length v" by (cases v) auto
  with length_le_total [OF v] assms(1) show ?thesis
    by (simp add: total_connections_def)
qed

lemma unregister_key_removed:
  "removeAll r (conns_of s st) = [] \<Longrightarrow> map_of (connections (unregisterConnection s r st)) s = None"
  by (auto simp: unregisterConnection_connections conns_of_def delete_conv' split: option.splits)

lemma unregister_twice:
  "unregisterConnection s r (unregisterConnection s r st) = unregisterConnection s r st"
proof (rule unregister_absent)
  show "r \<notin> set (conns_of s (unregisterConnection s r st))"
    by (simp add: conns_of_unregister)
  show "conns_of s (unregisterConnection s r st) \<noteq> [] \<or>
        map_of (connections (unregisterConnection s r st)) s = None"
    using unregister_key_removed [of r s st] by (auto simp: conns_of_unregister)
qed

text \<open>
  C7. In a state where \<open>connectionsActive\<close> is the number of registered replies,
  \<open>unregisterConnection\<close> removes the reply from the student's set when it is there and
  leaves every other set alone; \<open>connectionsActive\<close> goes down by exactly one when the reply
  was there and stays when it was not; a second call on the same pair changes nothing;
  \<open>connectionsActive\<close> stays non-negative; and when the set becomes empty the student's
  key is gone from \<open>connections\<close>.
\<close>

theorem unregister_idempotent:
  assumes "connectionsActive (metrics st) = int (total_connections st)"
  shows "conns_of s (unregisterConnection s r st) = removeAll r (conns_of s st)
       \<and> (\<forall>s'. s' \<noteq> s \<longrightarrow> conns_of s' (unregisterConnection s r st) = conns_of s' st)
       \<and> connectionsActive (metrics (unregisterConnection s r st)) =
           (if r \<in> set (conns_of s st) then connectionsActive (metrics st) - 1
            else connectionsActive (metrics st))
       \<and> unregisterConnection s r (unregisterConnection s r st) = unregisterConnection s r st
       \<and> 0 \<le> connectionsActive (metrics (unregisterConnection s r st))
       \<and> (removeAll r (conns_of s st) = [] \<longrightarrow>
            map_of (connections (unregisterConnection s r st)) s = None)"
proof -
  have act: "connectionsActive (metrics (unregisterConnection s r st)) =
      (if r \<in> set (conns_of s st) then connectionsActive (metrics st) - 1
       else connectionsActive (metrics st))"
    using present_active_pos [OF assms, of r s] by (auto simp: unregisterConnection_active)
  have nonneg: "0 \<le> connectionsActive (metrics (unregisterConnection s r st))"
    using assms by (simp add: unregisterConnection_active)
  show ?thesis
    using act nonneg unregister_key_removed [of r s st]
    by (simp add: conns_of_unregister unregister_twice)
qed

theorem unregister_idempotent_witness:
  "connectionsActive (metrics two_channels) = int (total_connections two_channels)
   \<and> conns_of ''r'' (unregisterConnection ''r'' 1 two_channels) = [2]
   \<and> connectionsActive (metrics (unregisterConnection ''r'' 1 two_channels)) = 1
   \<and> unregisterConnection ''r'' 1 (unregisterConnection ''r'' 1 two_channels) =
       unregisterConnection ''r'' 1 two_channels
   \<and> connectionsActive (metrics
       (unregisterConnection ''r'' 1 (unregisterConnection ''r'' 1 two_channels))) = 1"
  using unregister_idempotent [of two_channels "''r''" 1]
  by (simp add: two_channels_def init_state_def total_connections_def conns_of_def)

section \<open>Registry invariants\<close>

lemma total_update:
  "distinct (map fst al) \<Longrightarrow>
   int (sum_list (map (\<lambda>(s, rs). length rs) (AList.update k v al))) =
     int (sum_list (map (\<lambda>(s, rs). length rs) al))
     - int (length (case map_of al k of None \<Rightarrow> [] | Some x \<Rightarrow> x)) + int (length v)"
proof (induction al)
  case Nil
  then show ?case by simp
next
  case (Cons e al)
  obtain k' v' where e: "e = (k', v')" by (cases e)
  with Cons show ?case by (cases "k' = k") auto
qed

lemma total_delete:
  "distinct (map fst al) \<Longrightarrow>
   int (sum_list (map (\<lambda>(s, rs). length rs) (AList.delete k al))) =
     int (sum_list (map (\<lambda>(s, rs). length rs) al))
     - int (length (case map_of al k of None \<Rightarrow> [] | Some x \<Rightarrow> x))"
proof (induction al)
  case Nil
  then show ?case by simp
next
  case (Cons e al)
  obtain k' v' where e: "e = (k', v')" by (cases e)
  show ?case
  proof (cases "k' = k")
    case True
    with Cons.prems e have "k \<notin> fst ` set al" by auto
    then have "AList.delete k al = al" "map_of al k = None"
      by (simp_all add: map_of_eq_None_iff)
    with True e show ?thesis by simp
  next
    case False
    with Cons e show ?thesis by simp
  qed
qed

lemma entry_conns_of:
  "distinct (map fst (connections st)) \<Longrightarrow> (s, rs) \<in> set (connections st) \<Longrightarrow>
   conns_of s st = rs"
  by (simp add: conns_of_def)

lemma conns_of_entry:
  "conns_of s st \<noteq> [] \<Longrightarrow> (s, conns_of s st) \<in> set (connections st)"
  by (auto simp: conns_of_def split: option.splits dest: map_of_SomeD)

lemma registry_ok_distinct:
  "registry_ok st \<Longrightarrow> distinct (conns_of s st)"
proof (cases "conns_of s st = []")
  case True
  then show ?thesis by simp
next
  case False
  assume "registry_ok st"
  with conns_of_entry [OF False] show ?thesis by (auto simp: registry_ok_def)
qed

lemma fresh_reply_conns_of:
  "fresh_reply r st \<Longrightarrow> r \<notin> set (conns_of s st)"
proof (cases "conns_of s st = []")
  case True
  then show ?thesis by simp
next
  case False
  assume "fresh_reply r st"
  with conns_of_entry [OF False] show ?thesis by (auto simp: fresh_reply_def)
qed

lemma registry_ok_intro:
  assumes "distinct (map fst (connections st))"
    and "\<And>s. distinct (conns_of s st)"
    and "connectionsActive (metrics st) = int (total_connections st)"
  shows "registry_ok st"
  unfolding registry_ok_def
proof (intro conjI ballI)
  fix e assume e: "e \<in> set (connections st)"
  obtain s rs where "e = (s, rs)" by (cases e)
  with e entry_conns_of [OF assms(1), of s rs] assms(2) [of s]
  show "case e of (s, rs) \<Rightarrow> distinct rs" by simp
qed (use assms in simp_all)

lemma fresh_reply_intro:
  assumes "distinct (map fst (connections st))" and "\<And>s. r \<notin> set (conns_of s st)"
  shows "fresh_reply r st"
  unfolding fresh_reply_def
proof (intro ballI)
  fix e assume e: "e \<in> set (connections st)"
  obtain s rs where "e = (s, rs)" by (cases e)
  with e entry_conns_of [OF assms(1), of s rs] assms(2) [of s]
  show "case e of (s, rs) \<Rightarrow> r \<notin> set rs" by simp
qed

text \<open>What an eviction leaves of a set without repetitions.\<close>

lemma evict_distinct:
  "distinct cs \<Longrightarrow>
   (case cs of [] \<Rightarrow> [] | oldest # _ \<Rightarrow> removeAll oldest cs) = tl cs"
  by (cases cs) auto

lemma conns_of_register_distinct:
  assumes "distinct (conns_of s st)" and "r \<notin> set (conns_of s st)"
  shows "conns_of s (registerConnection maxc s r st) =
     (if maxc \<le> length (conns_of s st) then tl (conns_of s st) @ [r]
      else conns_of s st @ [r])"
proof -
  have "r \<notin> set (tl (conns_of s st))"
    using assms(2) by (cases "conns_of s st") auto
  with assms show ?thesis
    by (simp add: conns_of_register evict_distinct set_add_def)
qed

lemma distinct_keys_register:
  "distinct (map fst (connections st)) \<Longrightarrow>
   distinct (map fst (connections (registerConnection maxc s r st)))"
  by (simp add: registerConnection_connections distinct_update)

lemma distinct_keys_unregister:
  "distinct (map fst (connections st)) \<Longrightarrow>
   distinct (map fst (connections (unregisterConnection s r st)))"
  by (simp add: unregisterConnection_connections distinct_update distinct_delete
      split: option.splits)

lemma total_register:
  assumes "distinct (map fst (connections st))"
  shows "int (total_connections (registerConnection maxc s r st)) =
     int (total_connections st) - int (length (conns_of s st))
     + int (length (conns_of s (registerConnection maxc s r st)))"
proof -
  have "int (total_connections (registerConnection maxc s r st)) =
      int (total_connections st) - int (length (conns_of s st))
      + int (length (set_add r (if maxc \<le> length (conns_of s st)
                   then (case conns_of s st of [] \<Rightarrow> [] | oldest # _ \<Rightarrow> removeAll oldest (conns_of s st))
                   else conns_of s st)))"
    unfolding total_connections_def registerConnection_connections total_update [OF assms]
    by (simp add: conns_of_def)
  then show ?thesis by (simp add: conns_of_register)
qed

lemma total_unregister:
  assumes "distinct (map fst (connections st))"
  shows "int (total_connections (unregisterConnection s r st)) =
     int (total_connections st) - int (length (conns_of s st))
     + int (length (removeAll r (conns_of s st)))"
  unfolding total_connections_def unregisterConnection_connections
  by (simp add: total_update [OF assms] total_delete [OF assms] conns_of_def
      split: option.splits)

lemma length_removeAll_distinct:
  "distinct xs \<Longrightarrow> int (length (removeAll x xs)) = int (length xs) - (if x \<in> set xs then 1 else 0)"
  by (induction xs) auto

lemma registry_ok_register:
  assumes ok: "registry_ok st" and fresh: "fresh_reply r st"
  shows "registry_ok (registerConnection maxc s r st)"
proof (rule registry_ok_intro)
  let ?st' = "registerConnection maxc s r st"
  from ok have dk: "distinct (map fst (connections st))"
    and act: "connectionsActive (metrics st) = int (total_connections st)"
    by (simp_all add: registry_ok_def)
  have dc: "distinct (conns_of s st)" by (rule registry_ok_distinct [OF ok])
  have nr: "r \<notin> set (conns_of s st)" by (rule fresh_reply_conns_of [OF fresh])
  have c: "conns_of s ?st' =
     (if maxc \<le> length (conns_of s st) then tl (conns_of s st) @ [r] else conns_of s st @ [r])"
    by (rule conns_of_register_distinct [OF dc nr])
  show "distinct (map fst (connections ?st'))" by (rule distinct_keys_register [OF dk])
  show "distinct (conns_of s' ?st')" for s'
  proof (cases "s' = s")
    case True
    have "distinct (tl (conns_of s st))" "r \<notin> set (tl (conns_of s st))"
      using dc nr by (cases "conns_of s st"; simp)+
    with dc nr show ?thesis unfolding True c by simp
  next
    case False
    then show ?thesis using registry_ok_distinct [OF ok, of s'] by (simp add: conns_of_register)
  qed
  show "connectionsActive (metrics ?st') = int (total_connections ?st')"
  proof (cases "maxc \<le> length (conns_of s st) \<and> conns_of s st \<noteq> []")
    case True
    then have pos: "1 \<le> length (conns_of s st)" by (cases "conns_of s st") auto
    have "int (length (conns_of s st)) \<le> int (total_connections st)"
      using conns_of_entry [of s st] True length_le_total [of "connections st" s "conns_of s st"]
      by (auto simp: total_connections_def conns_of_def split: option.splits)
    with pos act have "1 \<le> connectionsActive (metrics st)" by simp
    with True act show ?thesis
      unfolding total_register [OF dk] c registerConnection_active
      by (cases "conns_of s st") auto
  next
    case False
    with act show ?thesis
      unfolding total_register [OF dk] c registerConnection_active
      by (cases "conns_of s st") auto
  qed
qed

lemma registry_ok_unregister:
  assumes ok: "registry_ok st"
  shows "registry_ok (unregisterConnection s r st)"
proof (rule registry_ok_intro)
  let ?st' = "unregisterConnection s r st"
  from ok have dk: "distinct (map fst (connections st))"
    and act: "connectionsActive (metrics st) = int (total_connections st)"
    by (simp_all add: registry_ok_def)
  have dc: "distinct (conns_of s st)" by (rule registry_ok_distinct [OF ok])
  show "distinct (map fst (connections ?st'))" by (rule distinct_keys_unregister [OF dk])
  show "distinct (conns_of s' ?st')" for s'
    using registry_ok_distinct [OF ok, of s'] by (auto simp: conns_of_unregister distinct_removeAll)
  show "connectionsActive (metrics ?st') = int (total_connections ?st')"
    using present_active_pos [OF act, of r s] act
    unfolding total_unregister [OF dk] unregisterConnection_active
      length_removeAll_distinct [OF dc]
    by auto
qed

lemma registry_ok_kept:
  "registry_ok st \<Longrightarrow> registry_kept st st' \<Longrightarrow> registry_ok st'"
  by (simp add: registry_ok_def registry_kept_def total_connections_def)

lemma fresh_reply_kept:
  "fresh_reply r st \<Longrightarrow> registry_kept st st' \<Longrightarrow> fresh_reply r st'"
  by (simp add: fresh_reply_def registry_kept_def)

lemma fresh_reply_register:
  assumes "distinct (map fst (connections st))" and "fresh_reply r' st" and "r' \<noteq> r"
  shows "fresh_reply r' (registerConnection maxc s r st)"
proof (rule fresh_reply_intro [OF distinct_keys_register [OF assms(1)]])
  fix s'
  have "set (case conns_of s st of [] \<Rightarrow> [] | oldest # _ \<Rightarrow> removeAll oldest (conns_of s st))
        \<subseteq> set (conns_of s st)"
    by (cases "conns_of s st") auto
  with fresh_reply_conns_of [OF assms(2)] assms(3)
  show "r' \<notin> set (conns_of s' (registerConnection maxc s r st))"
    by (auto simp: conns_of_register set_add_def)
qed

lemma fresh_reply_unregister:
  assumes "distinct (map fst (connections st))" and "fresh_reply r' st"
  shows "fresh_reply r' (unregisterConnection s r st)"
  by (rule fresh_reply_intro [OF distinct_keys_unregister [OF assms(1)]])
    (use fresh_reply_conns_of [OF assms(2)] in \<open>simp add: conns_of_unregister\<close>)

section \<open>Active-count consistency\<close>

lemma apply_op_registry_ok:
  assumes ok: "registry_ok st" and fresh: "\<forall>r \<in> set (registers x). fresh_reply r st"
  shows "registry_ok (apply_op ok ttl maxc st x)"
proof (cases x)
  case (Register s r)
  with fresh show ?thesis by (simp add: registry_ok_register [OF ok])
next
  case (Unregister s r)
  then show ?thesis by (simp add: registry_ok_unregister [OF ok])
next
  case (Broadcast s p)
  then show ?thesis using registry_ok_kept [OF ok registry_kept_broadcast] by simp
next
  case (Append n now)
  then show ?thesis using registry_ok_kept [OF ok registry_kept_append] by simp
next
  case (Prune now)
  then show ?thesis using registry_ok_kept [OF ok registry_kept_prune] by simp
next
  case (Publish b env)
  then show ?thesis using registry_ok_kept [OF ok registry_kept_publish] by simp
next
  case (PublishBatch b envs)
  then show ?thesis using registry_ok_kept [OF ok registry_kept_publish_batch] by simp
next
  case (Subscribe q r conn_now now)
  show ?thesis
  proof (cases "falsy q")
    case True
    then show ?thesis using ok Subscribe by (simp add: sse_rejected)
  next
    case False
    with fresh Subscribe have "fresh_reply r st" by simp
    from registry_ok_register [OF ok this, of maxc "the_string q"]
      sse_after_register [OF False, of maxc r st ok ttl conn_now now] Subscribe
    show ?thesis by (auto intro: registry_ok_kept)
  qed
next
  case (OnClose s r)
  then show ?thesis by (simp add: registry_ok_unregister [OF ok])
next
  case (CleanupTick now)
  then show ?thesis using registry_ok_kept [OF ok registry_kept_prune] by simp
qed

lemma apply_op_fresh:
  assumes dk: "distinct (map fst (connections st))" and fresh: "fresh_reply r' st"
    and other: "r' \<notin> set (registers x)"
  shows "fresh_reply r' (apply_op ok ttl maxc st x)"
proof (cases x)
  case (Register s r)
  with other show ?thesis by (simp add: fresh_reply_register [OF dk fresh])
next
  case (Unregister s r)
  then show ?thesis by (simp add: fresh_reply_unregister [OF dk fresh])
next
  case (Broadcast s p)
  then show ?thesis using fresh_reply_kept [OF fresh registry_kept_broadcast] by simp
next
  case (Append n now)
  then show ?thesis using fresh_reply_kept [OF fresh registry_kept_append] by simp
next
  case (Prune now)
  then show ?thesis using fresh_reply_kept [OF fresh registry_kept_prune] by simp
next
  case (Publish b env)
  then show ?thesis using fresh_reply_kept [OF fresh registry_kept_publish] by simp
next
  case (PublishBatch b envs)
  then show ?thesis using fresh_reply_kept [OF fresh registry_kept_publish_batch] by simp
next
  case (Subscribe q r conn_now now)
  show ?thesis
  proof (cases "falsy q")
    case True
    then show ?thesis using fresh Subscribe by (simp add: sse_rejected)
  next
    case False
    with other Subscribe have "r' \<noteq> r" by simp
    from fresh_reply_register [OF dk fresh this, of maxc "the_string q"]
      sse_after_register [OF False, of maxc r st ok ttl conn_now now] Subscribe
    show ?thesis by (auto intro: fresh_reply_kept)
  qed
next
  case (OnClose s r)
  then show ?thesis by (simp add: fresh_reply_unregister [OF dk fresh])
next
  case (CleanupTick now)
  then show ?thesis using fresh_reply_kept [OF fresh registry_kept_prune] by simp
qed

lemma run_registry_ok:
  "registry_ok st \<Longrightarrow> distinct (concat (map registers ops)) \<Longrightarrow>
   \<forall>r \<in> set (concat (map registers ops)). fresh_reply r st \<Longrightarrow>
   registry_ok (run ok ttl maxc st ops)"
proof (induction ops arbitrary: st)
  case Nil
  then show ?case by (simp add: run_Nil)
next
  case (Cons x xs)
  from Cons.prems(1) have dk: "distinct (map fst (connections st))"
    by (simp add: registry_ok_def)
  have ok': "registry_ok (apply_op ok ttl maxc st x)"
    using Cons.prems by (intro apply_op_registry_ok) auto
  have d': "distinct (concat (map registers xs))" using Cons.prems(2) by simp
  have f': "\<forall>r \<in> set (concat (map registers xs)). fresh_reply r (apply_op ok ttl maxc st x)"
  proof
    fix r assume r: "r \<in> set (concat (map registers xs))"
    with Cons.prems(2) have "r \<notin> set (registers x)" by auto
    moreover from r Cons.prems(3) have "fresh_reply r st" by simp
    ultimately show "fresh_reply r (apply_op ok ttl maxc st x)"
      by (intro apply_op_fresh [OF dk])
  qed
  show ?case unfolding run_Cons by (rule Cons.IH [OF ok' d' f'])
qed

lemma registry_ok_init: "registry_ok init_state"
  by (simp add: registry_ok_def init_state_def total_connections_def)

lemma fresh_reply_init: "fresh_reply r init_state"
  by (simp add: fresh_reply_def init_state_def)

text \<open>
  C10. After any sequence of operations from the initial state in which no reply is
  handed to \<open>registerConnection\<close> twice (every \<open>/sse\<close> request brings its own reply object),
  \<open>connectionsActive\<close> is the number of replies held over all students' sets, hence not
  negative. In a state where the two agree, a registration that finds the student's set
  full and evicts leaves \<open>connectionsActive\<close> as it was and raises \<open>connectionsTotal\<close> by one.
\<close>

theorem active_count_consistent:
  "(distinct (concat (map registers ops)) \<longrightarrow>
      connectionsActive (metrics (run ok ttl maxc init_state ops)) =
        int (total_connections (run ok ttl maxc init_state ops))
      \<and> 0 \<le> connectionsActive (metrics (run ok ttl maxc init_state ops)))
   \<and> (connectionsActive (metrics st) = int (total_connections st)
        \<and> maxc \<le> length (conns_of s st) \<and> conns_of s st \<noteq> [] \<longrightarrow>
      connectionsActive (metrics (registerConnection maxc s r st)) =
        connectionsActive (metrics st)
      \<and> connectionsTotal (metrics (registerConnection maxc s r st)) =
        connectionsTotal (metrics st) + 1)"
proof (intro conjI impI)
  assume d: "distinct (concat (map registers ops))"
  have "registry_ok (run ok ttl maxc init_state ops)"
    by (rule run_registry_ok [OF registry_ok_init d]) (simp add: fresh_reply_init)
  then show a: "connectionsActive (metrics (run ok ttl maxc init_state ops)) =
        int (total_connections (run ok ttl maxc init_state ops))"
    by (simp add: registry_ok_def)
  show "0 \<le> connectionsActive (metrics (run ok ttl maxc init_state ops))"
    unfolding a by simp
next
  assume h: "connectionsActive (metrics st) = int (total_connections st)
        \<and> maxc \<le> length (conns_of s st) \<and> conns_of s st \<noteq> []"
  then obtain c where "c \<in> set (conns_of s st)" by (cases "conns_of s st") auto
  with h have "1 \<le> connectionsActive (metrics st)" by (intro present_active_pos) auto
  with h show "connectionsActive (metrics (registerConnection maxc s r st)) =
        connectionsActive (metrics st)"
    by (simp add: registerConnection_active)
  show "connectionsTotal (metrics (registerConnection maxc s r st)) =
        connectionsTotal (metrics st) + 1"
    by simp
qed

theorem active_count_consistent_witness:
  "distinct (concat (map registers
      [Register ''s1'' 1, Register ''s1'' 2, Unregister ''s1'' 1, Unregister ''s1'' 1,
       Register ''s2'' 3]))
   \<and> connectionsActive (metrics (run all_ok 100 2 init_state
        [Register ''s1'' 1, Register ''s1'' 2, Unregister ''s1'' 1, Unregister ''s1'' 1,
         Register ''s2'' 3])) =
      int (total_connections (run all_ok 100 2 init_state
        [Register ''s1'' 1, Register ''s1'' 2, Unregister ''s1'' 1, Unregister ''s1'' 1,
         Register ''s2'' 3]))
   \<and> total_connections (run all_ok 100 2 init_state
        [Register ''s1'' 1, Register ''s1'' 2, Unregister ''s1'' 1, Unregister ''s1'' 1,
         Register ''s2'' 3]) = 2
   \<and> connectionsActive (metrics two_channels) = int (total_connections two_channels)
   \<and> 2 \<le> length (conns_of ''r'' two_channels) \<and> conns_of ''r'' two_channels \<noteq> []
   \<and> connectionsActive (metrics (registerConnection 2 ''r'' 3 two_channels)) = 2
   \<and> connectionsTotal (metrics (registerConnection 2 ''r'' 3 two_channels)) = 3"
  using active_count_consistent [of
      "[Register ''s1'' 1, Register ''s1'' 2, Unregister ''s1'' 1, Unregister ''s1'' 1,
        Register ''s2'' 3]" all_ok 100 2 two_channels "''r''" 3]
  by (simp add: run_def registerConnection_def unregisterConnection_def conns_of_def set_add_def
      init_state_def two_channels_def total_connections_def Let_def)

section \<open>Bounded fan-out\<close>

lemma length_set_add: "length (set_add x xs) \<le> Suc (length xs)"
  by (simp add: set_add_def)

lemma register_bounded:
  assumes pos: "0 < maxc" and b: "\<And>s'. length (conns_of s' st) \<le> maxc"
  shows "length (conns_of s' (registerConnection maxc s r st)) \<le> maxc"
proof (cases "s' = s")
  case False
  then show ?thesis using b [of s'] by (simp add: conns_of_register)
next
  case True
  show ?thesis
  proof (cases "maxc \<le> length (conns_of s st)")
    case full: True
    with pos obtain oldest rest where cs: "conns_of s st = oldest # rest"
      by (cases "conns_of s st") auto
    have "length (removeAll oldest (oldest # rest)) \<le> length rest" by simp
    moreover have "Suc (length rest) \<le> maxc" using b [of s] cs by simp
    ultimately have "length (set_add r (removeAll oldest (oldest # rest))) \<le> maxc"
      using length_set_add [of r "removeAll oldest (oldest # rest)"] by linarith
    with True full cs show ?thesis by (simp add: conns_of_register)
  next
    case False
    with length_set_add [of r "conns_of s st"] True show ?thesis
      by (simp add: conns_of_register)
  qed
qed

lemma kept_bounded:
  "registry_kept st st' \<Longrightarrow> length (conns_of s st) \<le> maxc \<Longrightarrow> length (conns_of s st') \<le> maxc"
  by (simp add: registry_kept_def conns_of_def)

lemma unregister_bounded:
  "length (conns_of s' st) \<le> maxc \<Longrightarrow> length (conns_of s' (unregisterConnection s r st)) \<le> maxc"
  using le_trans [OF length_removeAll_less_eq [of r "conns_of s st"], of maxc]
  by (auto simp: conns_of_unregister)

lemma apply_op_bounded:
  assumes pos: "0 < maxc" and b: "\<And>s'. length (conns_of s' st) \<le> maxc"
  shows "length (conns_of s' (apply_op ok ttl maxc st x)) \<le> maxc"
proof (cases x)
  case (Register s r)
  then show ?thesis by (simp add: register_bounded [OF pos b])
next
  case (Unregister s r)
  then show ?thesis by (simp add: unregister_bounded [OF b])
next
  case (Broadcast s p)
  then show ?thesis using kept_bounded [OF registry_kept_broadcast b] by simp
next
  case (Append n now)
  then show ?thesis using kept_bounded [OF registry_kept_append b] by simp
next
  case (Prune now)
  then show ?thesis using kept_bounded [OF registry_kept_prune b] by simp
next
  case (Publish body env)
  then show ?thesis using kept_bounded [OF registry_kept_publish b] by simp
next
  case (PublishBatch body envs)
  then show ?thesis using kept_bounded [OF registry_kept_publish_batch b] by simp
next
  case (Subscribe q r conn_now now)
  show ?thesis
  proof (cases "falsy q")
    case True
    then show ?thesis using b [of s'] Subscribe by (simp add: sse_rejected)
  next
    case False
    from sse_after_register [OF False, of maxc r st ok ttl conn_now now]
      register_bounded [OF pos b, of s' "the_string q" r] Subscribe
    show ?thesis by (auto intro: kept_bounded)
  qed
next
  case (OnClose s r)
  then show ?thesis by (simp add: unregister_bounded [OF b])
next
  case (CleanupTick now)
  then show ?thesis using kept_bounded [OF registry_kept_prune b] by simp
qed

lemma run_bounded:
  "0 < maxc \<Longrightarrow> (\<And>s'. length (conns_of s' st) \<le> maxc) \<Longrightarrow>
   length (conns_of s' (run ok ttl maxc st ops)) \<le> maxc"
proof (induction ops arbitrary: st s')
  case Nil
  then show ?case by (simp add: run_Nil)
next
  case (Cons x xs)
  show ?case
    unfolding run_Cons
    by (rule Cons.IH [OF Cons.prems(1)]) (rule apply_op_bounded [OF Cons.prems])
qed

lemma register_many:
  "0 < maxc \<Longrightarrow> distinct (conns_of s st @ rs) \<Longrightarrow> length (conns_of s st) \<le> maxc \<Longrightarrow>
   conns_of s (run ok ttl maxc st (map (Register s) rs)) =
     drop (length (conns_of s st @ rs) - maxc) (conns_of s st @ rs)"
proof (induction rs arbitrary: st)
  case Nil
  then show ?case by (simp add: run_Nil)
next
  case (Cons r rs)
  let ?cs = "conns_of s st"
  let ?st1 = "registerConnection maxc s r st"
  from Cons.prems have dc: "distinct ?cs" and nr: "r \<notin> set ?cs" by auto
  have c1: "conns_of s ?st1 = (if maxc \<le> length ?cs then tl ?cs @ [r] else ?cs @ [r])"
    by (rule conns_of_register_distinct [OF dc nr])
  have run1: "run ok ttl maxc st (map (Register s) (r # rs)) =
      run ok ttl maxc ?st1 (map (Register s) rs)"
    by (simp add: run_Cons)
  show ?case
  proof (cases "maxc \<le> length ?cs")
    case True
    with Cons.prems obtain oldest rest where cs: "?cs = oldest # rest"
      by (cases ?cs) auto
    with True Cons.prems(3) have len: "length ?cs = maxc" by simp
    have d1: "distinct (conns_of s ?st1 @ rs)"
      using Cons.prems(2) True cs by (auto simp: c1)
    have l1: "length (conns_of s ?st1) \<le> maxc" using True len cs by (simp add: c1)
    have c1': "conns_of s ?st1 = rest @ [r]" using True cs by (simp add: c1)
    have n1: "length (conns_of s ?st1 @ rs) - maxc = length rs"
      using len cs by (simp add: c1')
    have n0: "length (?cs @ r # rs) - maxc = Suc (length rs)"
      using len by simp
    have "conns_of s (run ok ttl maxc ?st1 (map (Register s) rs)) =
        drop (length rs) (conns_of s ?st1 @ rs)"
      using Cons.IH [OF Cons.prems(1) d1 l1] by (simp only: n1)
    also have "\<dots> = drop (Suc (length rs)) (?cs @ r # rs)"
      by (simp add: c1' cs)
    finally show ?thesis unfolding run1 n0 .
  next
    case False
    have d1: "distinct (conns_of s ?st1 @ rs)"
      using Cons.prems(2) False by (auto simp: c1)
    have l1: "length (conns_of s ?st1) \<le> maxc" using False by (simp add: c1)
    from Cons.IH [OF Cons.prems(1) d1 l1] False show ?thesis
      unfolding run1 by (simp add: c1)
  qed
qed

text \<open>
  C2. With a limit of at least one connection per student: if every student's set holds
  at most \<open>MAX_CONNECTIONS_PER_STUDENT\<close> replies, so it does after any sequence of
  operations, and the initial state is such a state; registering more than the limit of
  pairwise different replies for a student without connections leaves exactly the limit,
  namely the replies registered last, in their order; and a registration that finds the
  set full ends and removes the reply at the head of the set, the one registered first
  among those held, and puts the new reply at the end.
\<close>

theorem bounded_fan_out:
  assumes "0 < maxc"
  shows "((\<forall>s'. length (conns_of s' st) \<le> maxc) \<longrightarrow>
            (\<forall>s'. length (conns_of s' (run ok ttl maxc st ops)) \<le> maxc))
       \<and> (\<forall>s'. length (conns_of s' init_state) \<le> maxc)
       \<and> (distinct rs \<and> maxc < length rs \<and> conns_of s st = [] \<longrightarrow>
            conns_of s (run ok ttl maxc st (map (Register s) rs)) = drop (length rs - maxc) rs
            \<and> length (conns_of s (run ok ttl maxc st (map (Register s) rs))) = maxc)
       \<and> (distinct (conns_of s st) \<and> r \<notin> set (conns_of s st)
            \<and> length (conns_of s st) = maxc \<longrightarrow>
            conns_of s (registerConnection maxc s r st) = tl (conns_of s st) @ [r]
            \<and> ended (registerConnection maxc s r st) = ended st @ [hd (conns_of s st)])"
proof (intro conjI impI allI)
  fix s'
  assume "\<forall>s'. length (conns_of s' st) \<le> maxc"
  then show "length (conns_of s' (run ok ttl maxc st ops)) \<le> maxc"
    by (intro run_bounded [OF assms]) simp
next
  fix s'
  show "length (conns_of s' init_state) \<le> maxc"
    by (simp add: conns_of_def init_state_def)
next
  assume h: "distinct rs \<and> maxc < length rs \<and> conns_of s st = []"
  with register_many [OF assms, of s st rs ok ttl]
  show m: "conns_of s (run ok ttl maxc st (map (Register s) rs)) = drop (length rs - maxc) rs"
    by simp
  from h show "length (conns_of s (run ok ttl maxc st (map (Register s) rs))) = maxc"
    unfolding m by simp
next
  assume h: "distinct (conns_of s st) \<and> r \<notin> set (conns_of s st)
      \<and> length (conns_of s st) = maxc"
  then show "conns_of s (registerConnection maxc s r st) = tl (conns_of s st) @ [r]"
    by (simp add: conns_of_register_distinct)
  from h assms show "ended (registerConnection maxc s r st) = ended st @ [hd (conns_of s st)]"
    by (auto simp: registerConnection_ended)
qed

theorem bounded_fan_out_witness:
  "(0::nat) < 3
   \<and> (\<forall>s'. length (conns_of s' (run all_ok 100 3 init_state
         [Register ''s1'' 1, Register ''s1'' 2, Register ''s1'' 3, Register ''s1'' 4])) \<le> 3)
   \<and> distinct [1, 2, 3, 4, 5 :: nat] \<and> 3 < length [1, 2, 3, 4, 5 :: nat]
   \<and> conns_of ''s1'' init_state = []
   \<and> conns_of ''s1'' (run all_ok 100 3 init_state (map (Register ''s1'') [1, 2, 3, 4, 5])) =
       [3, 4, 5]
   \<and> conns_of ''s1'' (registerConnection 3 ''s1'' 9
        (run all_ok 100 3 init_state (map (Register ''s1'') [1, 2, 3, 4, 5]))) = [4, 5, 9]
   \<and> ended (registerConnection 3 ''s1'' 9
        (run all_ok 100 3 init_state (map (Register ''s1'') [1, 2, 3, 4, 5]))) = [1, 2, 3]"
proof -
  have pos: "(0::nat) < 3" by simp
  have init_b: "\<forall>s'. length (conns_of s' init_state) \<le> 3"
    and init_e: "conns_of ''s1'' init_state = []"
    by (simp_all add: conns_of_def init_state_def)
  have d: "distinct [1, 2, 3, 4, 5 :: nat]" "3 < length [1, 2, 3, 4, 5 :: nat]"
    by simp_all
  note a = bounded_fan_out [OF pos, of init_state all_ok 100
        "[Register ''s1'' 1, Register ''s1'' 2, Register ''s1'' 3, Register ''s1'' 4]"
        "[1, 2, 3, 4, 5]" "''s1''" 0]
  from a init_b have inv: "\<forall>s'. length (conns_of s' (run all_ok 100 3 init_state
         [Register ''s1'' 1, Register ''s1'' 2, Register ''s1'' 3, Register ''s1'' 4])) \<le> 3"
    by blast
  from a d init_e
  have many: "conns_of ''s1'' (run all_ok 100 3 init_state (map (Register ''s1'') [1, 2, 3, 4, 5])) =
      [3, 4, 5]"
    by simp
  have e: "ended (run all_ok 100 3 init_state (map (Register ''s1'') [1, 2, 3, 4, 5])) = [1, 2]"
    by (simp add: run_def registerConnection_def conns_of_def set_add_def init_state_def Let_def)
  note b = bounded_fan_out [OF pos,
        of "run all_ok 100 3 init_state (map (Register ''s1'') [1, 2, 3, 4, 5])" all_ok 100 "[]"
        "[]" "''s1''" 9]
  have evict: "conns_of ''s1'' (registerConnection 3 ''s1'' 9
        (run all_ok 100 3 init_state (map (Register ''s1'') [1, 2, 3, 4, 5]))) = [4, 5, 9]
     \<and> ended (registerConnection 3 ''s1'' 9
        (run all_ok 100 3 init_state (map (Register ''s1'') [1, 2, 3, 4, 5]))) = [1, 2, 3]"
    using b unfolding many e by simp
  from pos inv d init_e many evict show ?thesis by blast
qed

section \<open>Publish\<close>

lemma history_of_append:
  assumes "distinct (map fst (recentNotifications st))"
  shows "history_of s (addRecentNotification ttl now n st) =
     filter (\<lambda>x. now - createdAt x \<le> ttl)
       (if s = studentId n then history_of s st @ [n] else history_of s st)"
proof -
  let ?st1 = "st\<lparr>recentNotifications :=
      AList.update (studentId n) (history_of (studentId n) st @ [n]) (recentNotifications st)\<rparr>"
  let ?st2 = "?st1\<lparr>metrics := (metrics ?st1)\<lparr>notificationsStored :=
      notificationsStored (metrics ?st1) + 1\<rparr>\<rparr>"
  have d: "distinct (map fst (recentNotifications ?st2))"
    using assms by (simp add: distinct_update)
  have h: "history_of s ?st2 =
      (if s = studentId n then history_of s st @ [n] else history_of s st)"
    by (simp add: history_of_def update_conv')
  have "addRecentNotification ttl now n st = pruneOldNotifications ttl now ?st2"
    by (simp add: addRecentNotification_def Let_def)
  then show ?thesis
    using history_of_prune [OF d, of s ttl now] by (simp only: h)
qed


lemma publish_accepted:
  "\<not> missing_or_empty b \<Longrightarrow>
   \<exists>pb s m. b = Some pb \<and> body_studentId pb = Some s \<and> body_message pb = Some m
     \<and> s \<noteq> [] \<and> m \<noteq> []
     \<and> publish ok ttl b env st =
         (Reply 202 (Accepted (nid (make_notification s m env))),
          snd (broadcastToStudent ok s (evt live (make_notification s m env))
                 (addRecentNotification ttl (prune_now env) (make_notification s m env) st)))"
  by (auto simp: publish_def publish_one_def missing_or_empty_def falsy_def the_string_def
      Let_def split: option.splits)
















section \<open>Subscribe\<close>

lemma prune_loop_recent_only:
  "recentNotifications st = recentNotifications st' \<Longrightarrow>
   recentNotifications (prune_loop ttl now es st) =
     recentNotifications (prune_loop ttl now es st')"
proof (induction es arbitrary: st st')
  case Nil
  then show ?case by simp
next
  case (Cons e es)
  obtain k l where e: "e = (k, l)" by (cases e)
  show ?case
    unfolding e prune_loop_Cons
    by (rule Cons.IH) (simp add: Cons.prems)
qed

lemma prune_recent_only:
  assumes "recentNotifications st = recentNotifications st'"
  shows "recentNotifications (pruneOldNotifications ttl now st) =
     recentNotifications (pruneOldNotifications ttl now st')"
  unfolding pruneOldNotifications_def assms
  by (rule prune_loop_recent_only [OF assms])

lemma sse_written:
  assumes "\<not> falsy q"
  shows "written (snd (sse ok ttl maxc q r conn_now now st)) c =
     written st c @
     (if c = r \<and> ok r
      then Connected conn_now #
           map (evt missed)
             (history_of (the_string q) (pruneOldNotifications ttl now st))
      else [])"
proof -
  let ?st1 = "registerConnection maxc (the_string q) r st"
  let ?st2 = "snd (raw_write ok r (Connected conn_now) ?st1)"
  have "recentNotifications (pruneOldNotifications ttl now ?st2) =
        recentNotifications (pruneOldNotifications ttl now st)"
    by (rule prune_recent_only) simp
  then have h: "history_of (the_string q) (pruneOldNotifications ttl now ?st2) =
      history_of (the_string q) (pruneOldNotifications ttl now st)"
    by (simp add: history_of_def)
  show ?thesis
    by (simp add: sse_accepted [OF assms] replay_missed_written h)
qed

lemma registered_after_register: "r \<in> set (conns_of s (registerConnection maxc s r st))"
  by (simp add: conns_of_register set_add_def)

lemma distinct_after_register:
  assumes "distinct (conns_of s st)"
  shows "distinct (conns_of s (registerConnection maxc s r st))"
proof -
  have "distinct (tl (conns_of s st))" using assms by (cases "conns_of s st") auto
  with assms show ?thesis
    by (simp add: conns_of_register evict_distinct set_add_def)
qed

lemma conns_of_sse:
  "\<not> falsy q \<Longrightarrow>
   conns_of s (snd (sse ok ttl maxc q r conn_now now st)) =
     conns_of s (registerConnection maxc (the_string q) r st)"
  using sse_after_register [of q maxc r st ok ttl conn_now now]
  by (simp add: registry_kept_def conns_of_def)

text \<open>
  C9, as stated, fails: a stored entry older than the retention window is not replayed.
  With a window of 100 and the clock at 1000, the history of \<open>s1\<close> holds the entries created
  at 0 and at 950, and a subscriber receives the opening comment and the second one only.
\<close>

theorem subscribe_skips_expired:
  "history_of ''s1'' store_example = [n_old, n_new]
   \<and> written (snd (sse all_ok 100 3 (Some ''s1'') 1 1000 1000 store_example)) 1 =
       [Connected 1000, evt missed n_new]
   \<and> evt missed n_old \<notin>
       set (written (snd (sse all_ok 100 3 (Some ''s1'') 1 1000 1000 store_example)) 1)"
proof -
  have d: "distinct (map fst (recentNotifications store_example))"
    by (simp add: store_example_def init_state_def)
  have q: "\<not> falsy (Some ''s1'')" "the_string (Some ''s1'') = ''s1''"
    by (simp_all add: falsy_def the_string_def)
  have h: "history_of ''s1'' store_example = [n_old, n_new]"
    and w: "written store_example 1 = []"
    by (simp_all add: history_of_def store_example_def init_state_def)
  have f: "filter (\<lambda>n. 1000 - createdAt n \<le> 100) [n_old, n_new] = [n_new]"
    by (simp add: n_old_def n_new_def)
  have "written (snd (sse all_ok 100 3 (Some ''s1'') 1 1000 1000 store_example)) 1 =
       [Connected 1000, evt missed n_new]"
    unfolding sse_written [OF q(1)] q(2) history_of_prune [OF d] h f w
    by (simp add: all_ok_def)
  with h show ?thesis by (simp add: evt_def n_old_def n_new_def)
qed

text \<open>
  C9, amended. An accepted \<open>/sse\<close> request on a store with distinct keys registers the
  reply (evicting when the set is full). When the reply's stream accepts writes, the
  stream then receives the opening comment followed by one \<open>missed\<close> event for each entry
  of the student's stored history that is within the retention window at the clock
  reading of the prune that the handler runs before the read, in stored order, and for no
  other entry; with no such entry the replay is empty. No other reply's stream is written.
  Afterwards a broadcast for the student appends its payload to this reply's stream. When
  the opening write throws, the handler ends by that exception with the reply registered
  and nothing written.
\<close>

theorem subscribe_replay:
  assumes "distinct (map fst (recentNotifications st))" and "s \<noteq> []"
  shows "r \<in> set (conns_of s (snd (sse ok ttl maxc (Some s) r conn_now now st)))
       \<and> conns_of s (snd (sse ok ttl maxc (Some s) r conn_now now st)) =
           conns_of s (registerConnection maxc s r st)
       \<and> (ok r \<longrightarrow>
            fst (sse ok ttl maxc (Some s) r conn_now now st) = StreamOpen
            \<and> written (snd (sse ok ttl maxc (Some s) r conn_now now st)) r =
                written st r @ Connected conn_now #
                map (evt missed) (filter (\<lambda>n. now - createdAt n \<le> ttl) (history_of s st)))
       \<and> (ok r \<and> filter (\<lambda>n. now - createdAt n \<le> ttl) (history_of s st) = [] \<longrightarrow>
            written (snd (sse ok ttl maxc (Some s) r conn_now now st)) r =
                written st r @ [Connected conn_now])
       \<and> (\<forall>c. c \<noteq> r \<longrightarrow>
            written (snd (sse ok ttl maxc (Some s) r conn_now now st)) c = written st c)
       \<and> (ok r \<and> distinct (conns_of s st) \<longrightarrow>
            written (snd (broadcastToStudent ok s p
                       (snd (sse ok ttl maxc (Some s) r conn_now now st)))) r =
              written (snd (sse ok ttl maxc (Some s) r conn_now now st)) r @ [p])
       \<and> (\<not> ok r \<longrightarrow>
            fst (sse ok ttl maxc (Some s) r conn_now now st) = Threw
            \<and> written (snd (sse ok ttl maxc (Some s) r conn_now now st)) = written st)"
proof -
  let ?res = "sse ok ttl maxc (Some s) r conn_now now st"
  have q: "\<not> falsy (Some s)" and ts: "the_string (Some s) = s"
    using assms(2) by (simp_all add: falsy_def the_string_def)
  have c: "conns_of s (snd ?res) = conns_of s (registerConnection maxc s r st)"
    using conns_of_sse [OF q, of s ok ttl maxc r conn_now now st] by (simp add: ts)
  have reg: "r \<in> set (conns_of s (snd ?res))"
    unfolding c by (rule registered_after_register)
  have w: "\<And>c. written (snd ?res) c =
      written st c @
      (if c = r \<and> ok r
       then Connected conn_now #
            map (evt missed) (filter (\<lambda>n. now - createdAt n \<le> ttl) (history_of s st))
       else [])"
    using sse_written [OF q, of ok ttl maxc r conn_now now st]
    by (simp add: ts history_of_prune [OF assms(1)])
  have resp: "fst ?res = (if ok r then StreamOpen else Threw)"
    by (simp add: sse_accepted [OF q])
  have live: "written (snd (broadcastToStudent ok s p (snd ?res))) r = written (snd ?res) r @ [p]"
    if "ok r" "distinct (conns_of s st)"
  proof -
    have "distinct (conns_of s (snd ?res))"
      unfolding c by (rule distinct_after_register [OF that(2)])
    from count_list_distinct [OF this, of r] reg that(1) show ?thesis
      by (simp add: broadcastToStudent_written)
  qed
  have unchanged: "written (snd ?res) = written st" if "\<not> ok r"
    using that by (auto simp: w fun_eq_iff)
  show ?thesis
  proof (intro conjI impI allI)
    show "r \<in> set (conns_of s (snd ?res))" by (rule reg)
    show "conns_of s (snd ?res) = conns_of s (registerConnection maxc s r st)" by (rule c)
    show "fst ?res = StreamOpen" if "ok r" using that by (simp add: resp)
    show "written (snd ?res) r = written st r @ Connected conn_now #
        map (evt missed) (filter (\<lambda>n. now - createdAt n \<le> ttl) (history_of s st))"
      if "ok r" using that by (simp add: w)
    show "written (snd ?res) r = written st r @ [Connected conn_now]"
      if "ok r \<and> filter (\<lambda>n. now - createdAt n \<le> ttl) (history_of s st) = []"
      using that by (simp add: w)
    show "written (snd ?res) c = written st c" if "c \<noteq> r" for c
      using that by (simp add: w)
    show "written (snd (broadcastToStudent ok s p (snd ?res))) r = written (snd ?res) r @ [p]"
      if "ok r \<and> distinct (conns_of s st)"
      using that by (intro live) simp_all
    show "fst ?res = Threw" if "\<not> ok r" using that by (simp add: resp)
    show "written (snd ?res) = written st" if "\<not> ok r" using that by (rule unchanged)
  qed
qed

theorem subscribe_replay_witness:
  "distinct (map fst (recentNotifications store_example)) \<and> ''s1'' \<noteq> []
   \<and> all_ok 1 \<and> distinct (conns_of ''s1'' store_example)
   \<and> conns_of ''s1'' (snd (sse all_ok 100 3 (Some ''s1'') 1 1000 1000 store_example)) = [1]
   \<and> fst (sse all_ok 100 3 (Some ''s1'') 1 1000 1000 store_example) = StreamOpen
   \<and> written (snd (sse all_ok 100 3 (Some ''s1'') 1 1000 1000 store_example)) 1 =
       [Connected 1000, Data missed ''950-b'' ''new'' 950]
   \<and> written (snd (sse all_ok 100 3 (Some ''s1'') 1 1000 1000 store_example)) 2 = []
   \<and> written (snd (broadcastToStudent all_ok ''s1'' (Data live ''1001-z'' ''next'' 1001)
        (snd (sse all_ok 100 3 (Some ''s1'') 1 1000 1000 store_example)))) 1 =
       [Connected 1000, Data missed ''950-b'' ''new'' 950, Data live ''1001-z'' ''next'' 1001]"
proof -
  let ?st' = "snd (sse all_ok 100 3 (Some ''s1'') 1 1000 1000 store_example)"
  have d: "distinct (map fst (recentNotifications store_example))"
    and ne: "''s1'' \<noteq> []" and okr: "all_ok 1"
    and dc: "distinct (conns_of ''s1'' store_example)"
    and h: "history_of ''s1'' store_example = [n_old, n_new]"
    and w0: "written store_example = (\<lambda>_. [])"
    by (simp_all add: store_example_def init_state_def all_ok_def conns_of_def history_of_def)
  have f: "filter (\<lambda>n. 1000 - createdAt n \<le> 100) [n_old, n_new] = [n_new]"
    by (simp add: n_old_def n_new_def)
  have reg: "conns_of ''s1'' (registerConnection 3 ''s1'' 1 store_example) = [1]"
    by (simp add: conns_of_register set_add_def)
      (simp add: conns_of_def store_example_def init_state_def)
  note t = subscribe_replay [OF d ne, of 1 all_ok 100 3 1000 1000
      "Data live ''1001-z'' ''next'' 1001"]
  have c: "conns_of ''s1'' ?st' = [1]"
    using t [THEN conjunct2, THEN conjunct1] reg by simp
  note t2 = t [THEN conjunct2, THEN conjunct2]
  have o: "fst (sse all_ok 100 3 (Some ''s1'') 1 1000 1000 store_example) = StreamOpen"
    and w1: "written ?st' 1 = [Connected 1000, Data missed ''950-b'' ''new'' 950]"
    using t2 [THEN conjunct1, THEN mp, OF okr]
    by (simp_all add: h w0 evt_def n_old_def n_new_def)
  note t4 = t2 [THEN conjunct2, THEN conjunct2]
  have w2: "written ?st' 2 = []"
    using t4 [THEN conjunct1, rule_format, of 2] by (simp add: w0)
  have w3: "written (snd (broadcastToStudent all_ok ''s1'' (Data live ''1001-z'' ''next'' 1001)
        ?st')) 1 =
       [Connected 1000, Data missed ''950-b'' ''new'' 950, Data live ''1001-z'' ''next'' 1001]"
    using t4 [THEN conjunct2, THEN conjunct1, THEN mp, OF conjI [OF okr dc]] w1
    by simp
  show ?thesis by (intro conjI d ne okr dc c o w1 w2 w3)
qed

section \<open>At-least-once delivery\<close>

lemma interleavings_shuffles: "set (interleavings xs ys) = shuffles xs ys"
  by (induction xs ys rule: interleavings.induct) auto

text \<open>The handlers run their actions in program order.\<close>

lemma publish_runs_actions:
  assumes "s \<noteq> []" and "m \<noteq> []"
  shows "snd (publish ok ttl (Some \<lparr> body_studentId = Some s, body_message = Some m \<rparr>) env st) =
     foldl (perform ok ttl maxc) st (publish_actions s m env)"
  using assms
  by (simp add: publish_def publish_one_def publish_actions_def falsy_def the_string_def
      Let_def make_notification_def)

lemma sse_runs_actions:
  assumes "s \<noteq> []" and "ok r"
  shows "snd (sse ok ttl maxc (Some s) r conn_now now st) =
     foldl (perform ok ttl maxc) st (subscribe_actions s r conn_now now)"
proof -
  have "\<not> falsy (Some s)" "the_string (Some s) = s"
    using assms(1) by (simp_all add: falsy_def the_string_def)
  with assms(2) show ?thesis
    by (simp add: sse_accepted subscribe_actions_def)
qed

text \<open>Every action only appends to a stream, so deliveries never go down.\<close>

lemma written_perform:
  "\<exists>fs. written (perform ok ttl maxc st a) r = written st r @ fs"
proof (cases a)
  case (PubAppend n now)
  then show ?thesis by simp
next
  case (PubBroadcast n)
  then show ?thesis by (simp add: broadcastToStudent_written)
next
  case (SubRegister s r')
  then show ?thesis by simp
next
  case (SubConnected r' now)
  then show ?thesis by simp
next
  case (SubReplay s r' now)
  then show ?thesis by (simp add: replay_missed_written)
qed

lemma deliveries_mono:
  "k \<le> deliveries n r st \<Longrightarrow> k \<le> deliveries n r (perform ok ttl maxc st a)"
proof -
  obtain fs where "written (perform ok ttl maxc st a) r = written st r @ fs"
    using written_perform by blast
  then have "deliveries n r st \<le> deliveries n r (perform ok ttl maxc st a)"
    by (simp add: deliveries_def)
  then show "k \<le> deliveries n r st \<Longrightarrow> ?thesis" by simp
qed

lemma deliveries_broadcast:
  assumes "k \<le> deliveries n r st" and "r \<in> set (conns_of (studentId n) st)" and "ok r"
  shows "Suc k \<le> deliveries n r (perform ok ttl maxc st (PubBroadcast n))"
proof -
  have "count_list (conns_of (studentId n) st) r \<noteq> 0"
    using assms(2) by (simp add: count_list_0_iff)
  then have "0 < count_list (conns_of (studentId n) st) r" by simp
  then obtain j where j: "count_list (conns_of (studentId n) st) r = Suc j"
    by (cases "count_list (conns_of (studentId n) st) r") auto
  have "written (perform ok ttl maxc st (PubBroadcast n)) r =
      written st r @ replicate (Suc j) (evt live n)"
    using assms(3) by (simp add: broadcastToStudent_written j)
  with assms(1) show ?thesis by (simp add: deliveries_def)
qed

lemma deliveries_replay:
  assumes "k \<le> deliveries n r st" and "distinct (map fst (recentNotifications st))"
    and "n \<in> set (history_of s st)" and "now - createdAt n \<le> ttl" and "ok r"
  shows "Suc k \<le> deliveries n r (perform ok ttl maxc st (SubReplay s r now))"
proof -
  let ?h = "filter (\<lambda>x. now - createdAt x \<le> ttl) (history_of s st)"
  have w: "written (perform ok ttl maxc st (SubReplay s r now)) r =
      written st r @ map (evt missed) ?h"
    using assms(5) by (simp add: replay_missed_written history_of_prune [OF assms(2)])
  have "evt missed n \<in> set (map (evt missed) ?h)" using assms(3,4) by simp
  then have "count_list (map (evt missed) ?h) (evt missed n) \<noteq> 0"
    by (simp only: count_list_0_iff not_not)
  then have "0 < count_list (map (evt missed) ?h) (evt missed n)" by simp
  with assms(1) show ?thesis unfolding w deliveries_def by simp
qed

text \<open>The store keeps distinct keys, and keeps a notification that is within the window.\<close>

lemma distinct_store_prune:
  "distinct (map fst (recentNotifications st)) \<Longrightarrow>
   distinct (map fst (recentNotifications (pruneOldNotifications ttl now st)))"
  by (simp add: prune_recent distinct_spec_prune)

lemma distinct_store_perform:
  assumes "distinct (map fst (recentNotifications st))"
  shows "distinct (map fst (recentNotifications (perform ok ttl maxc st a)))"
proof (cases a)
  case (PubAppend n now)
  have "distinct (map fst (AList.update (studentId n) (history_of (studentId n) st @ [n])
      (recentNotifications st)))"
    using assms by (simp add: distinct_update)
  then show ?thesis
    using PubAppend addRecentNotification_recent(1) [OF assms, of ttl now n]
    by (simp add: distinct_spec_prune)
next
  case (PubBroadcast n)
  then show ?thesis using assms by simp
next
  case (SubRegister s r)
  then show ?thesis using assms by simp
next
  case (SubConnected r now)
  then show ?thesis using assms by simp
next
  case (SubReplay s r now)
  then show ?thesis using distinct_store_prune [OF assms] by simp
qed

lemma stored_by_append:
  assumes "distinct (map fst (recentNotifications st))" and "now - createdAt n \<le> ttl"
  shows "n \<in> set (history_of (studentId n) (perform ok ttl maxc st (PubAppend n now)))"
  using assms by (simp add: history_of_append)

lemma stored_kept_broadcast:
  "n \<in> set (history_of s st) \<Longrightarrow>
   n \<in> set (history_of s (perform ok ttl maxc st (PubBroadcast n')))"
  by simp

lemma stored_kept_register:
  "n \<in> set (history_of s st) \<Longrightarrow>
   n \<in> set (history_of s (perform ok ttl maxc st (SubRegister s' r)))"
  by simp

lemma stored_kept_connected:
  "n \<in> set (history_of s st) \<Longrightarrow>
   n \<in> set (history_of s (perform ok ttl maxc st (SubConnected r now)))"
  by (simp add: history_of_def)

lemma stored_kept_replay:
  assumes "n \<in> set (history_of s st)" and "distinct (map fst (recentNotifications st))"
    and "now - createdAt n \<le> ttl"
  shows "n \<in> set (history_of s (perform ok ttl maxc st (SubReplay s' r now)))"
proof -
  have "history_of s (perform ok ttl maxc st (SubReplay s' r now)) =
      history_of s (pruneOldNotifications ttl now st)"
    by (simp add: history_of_def)
  with assms show ?thesis by (simp add: history_of_prune)
qed

text \<open>The registration puts the reply into the set, and the other actions leave it there.\<close>

lemma registered_by_register:
  "r \<in> set (conns_of s (perform ok ttl maxc st (SubRegister s r)))"
  by (simp add: registered_after_register)

lemma registered_kept_append:
  "r \<in> set (conns_of s st) \<Longrightarrow>
   r \<in> set (conns_of s (perform ok ttl maxc st (PubAppend n now)))"
  by simp

lemma registered_kept_connected:
  "r \<in> set (conns_of s st) \<Longrightarrow>
   r \<in> set (conns_of s (perform ok ttl maxc st (SubConnected r' now)))"
  by (simp add: conns_of_def)

lemma registered_kept_replay:
  "r \<in> set (conns_of s st) \<Longrightarrow>
   r \<in> set (conns_of s (perform ok ttl maxc st (SubReplay s' r' now)))"
  by (simp add: conns_of_def)

lemma two_three_interleavings:
  "interleavings [a1, a2] [b1, b2, b3] =
     [[a1, a2, b1, b2, b3], [a1, b1, a2, b2, b3], [a1, b1, b2, a2, b3], [a1, b1, b2, b3, a2],
      [b1, a1, a2, b2, b3], [b1, a1, b2, a2, b3], [b1, a1, b2, b3, a2],
      [b1, b2, a1, a2, b3], [b1, b2, a1, b3, a2], [b1, b2, b3, a1, a2]]"
  by simp

lemma schedules_deliver:
  assumes d: "distinct (map fst (recentNotifications st))" and okr: "ok r"
    and fp: "tp - createdAt n \<le> ttl" and fs: "now - createdAt n \<le> ttl"
    and sched: "sched \<in> set (interleavings
        [PubAppend n tp, PubBroadcast n]
        [SubRegister (studentId n) r, SubConnected r conn_now, SubReplay (studentId n) r now])"
  shows "Suc (deliveries n r st) \<le> deliveries n r (foldl (perform ok ttl maxc) st sched)"
proof -
  let ?pa = "PubAppend n tp" and ?pb = "PubBroadcast n"
  let ?sr = "SubRegister (studentId n) r" and ?sc = "SubConnected r conn_now"
  let ?sp = "SubReplay (studentId n) r now"
  note base = le_refl [of "deliveries n r st"]
  note stored = distinct_store_perform d stored_kept_connected stored_kept_register
    stored_kept_broadcast stored_by_append fp fs okr deliveries_mono base
  note registered = registered_kept_replay registered_kept_connected registered_kept_append
    registered_by_register okr deliveries_mono base
  have c1: "Suc (deliveries n r st) \<le>
      deliveries n r (foldl (perform ok ttl maxc) st [?pa, ?pb, ?sr, ?sc, ?sp])"
    unfolding foldl.simps by (rule deliveries_replay; intro stored)
  have c2: "Suc (deliveries n r st) \<le>
      deliveries n r (foldl (perform ok ttl maxc) st [?pa, ?sr, ?pb, ?sc, ?sp])"
    unfolding foldl.simps by (rule deliveries_replay; intro stored)
  have c3: "Suc (deliveries n r st) \<le>
      deliveries n r (foldl (perform ok ttl maxc) st [?pa, ?sr, ?sc, ?pb, ?sp])"
    unfolding foldl.simps by (rule deliveries_replay; intro stored)
  have c4: "Suc (deliveries n r st) \<le>
      deliveries n r (foldl (perform ok ttl maxc) st [?pa, ?sr, ?sc, ?sp, ?pb])"
    unfolding foldl.simps by (rule deliveries_broadcast; intro registered)
  have c5: "Suc (deliveries n r st) \<le>
      deliveries n r (foldl (perform ok ttl maxc) st [?sr, ?pa, ?pb, ?sc, ?sp])"
    unfolding foldl.simps by (rule deliveries_replay; intro stored)
  have c6: "Suc (deliveries n r st) \<le>
      deliveries n r (foldl (perform ok ttl maxc) st [?sr, ?pa, ?sc, ?pb, ?sp])"
    unfolding foldl.simps by (rule deliveries_replay; intro stored)
  have c7: "Suc (deliveries n r st) \<le>
      deliveries n r (foldl (perform ok ttl maxc) st [?sr, ?pa, ?sc, ?sp, ?pb])"
    unfolding foldl.simps by (rule deliveries_broadcast; intro registered)
  have c8: "Suc (deliveries n r st) \<le>
      deliveries n r (foldl (perform ok ttl maxc) st [?sr, ?sc, ?pa, ?pb, ?sp])"
    unfolding foldl.simps by (rule deliveries_replay; intro stored)
  have c9: "Suc (deliveries n r st) \<le>
      deliveries n r (foldl (perform ok ttl maxc) st [?sr, ?sc, ?pa, ?sp, ?pb])"
    unfolding foldl.simps by (rule deliveries_broadcast; intro registered)
  have c10: "Suc (deliveries n r st) \<le>
      deliveries n r (foldl (perform ok ttl maxc) st [?sr, ?sc, ?sp, ?pa, ?pb])"
    unfolding foldl.simps by (rule deliveries_broadcast; intro registered)
  from sched have "sched \<in> set
     [[?pa, ?pb, ?sr, ?sc, ?sp], [?pa, ?sr, ?pb, ?sc, ?sp], [?pa, ?sr, ?sc, ?pb, ?sp],
      [?pa, ?sr, ?sc, ?sp, ?pb], [?sr, ?pa, ?pb, ?sc, ?sp], [?sr, ?pa, ?sc, ?pb, ?sp],
      [?sr, ?pa, ?sc, ?sp, ?pb], [?sr, ?sc, ?pa, ?pb, ?sp], [?sr, ?sc, ?pa, ?sp, ?pb],
      [?sr, ?sc, ?sp, ?pa, ?pb]]"
    by (simp only: two_three_interleavings)
  then have "sched = [?pa, ?pb, ?sr, ?sc, ?sp] \<or> sched = [?pa, ?sr, ?pb, ?sc, ?sp]
      \<or> sched = [?pa, ?sr, ?sc, ?pb, ?sp] \<or> sched = [?pa, ?sr, ?sc, ?sp, ?pb]
      \<or> sched = [?sr, ?pa, ?pb, ?sc, ?sp] \<or> sched = [?sr, ?pa, ?sc, ?pb, ?sp]
      \<or> sched = [?sr, ?pa, ?sc, ?sp, ?pb] \<or> sched = [?sr, ?sc, ?pa, ?pb, ?sp]
      \<or> sched = [?sr, ?sc, ?pa, ?sp, ?pb] \<or> sched = [?sr, ?sc, ?sp, ?pa, ?pb]"
    by (simp only: set_simps insert_iff empty_iff simp_thms)
  with c1 c2 c3 c4 c5 c6 c7 c8 c9 c10 show ?thesis by blast
qed

text \<open>
  C1, as stated, fails: a subscriber that connects after the retention window has passed
  does not receive the notification at all. With a window of 100, a notification published
  at clock 1000 to a student without connections is stored; the subscribe at clock 2000
  prunes it before the replay, and the stream holds the opening comment only.
\<close>

theorem late_subscriber_misses:
  "fst (publish all_ok 100 (Some body_example) env_example init_state) =
     Reply 202 (Accepted ''1000-k3x'')
   \<and> fst (sse all_ok 100 3 (Some ''s1'') 1 2000 2000
        (snd (publish all_ok 100 (Some body_example) env_example init_state))) = StreamOpen
   \<and> written (snd (sse all_ok 100 3 (Some ''s1'') 1 2000 2000
        (snd (publish all_ok 100 (Some body_example) env_example init_state)))) 1 =
       [Connected 2000]
   \<and> deliveries (make_notification ''s1'' ''New grade posted'' env_example) 1
        (snd (sse all_ok 100 3 (Some ''s1'') 1 2000 2000
           (snd (publish all_ok 100 (Some body_example) env_example init_state)))) = 0"
proof -
  let ?n = "make_notification ''s1'' ''New grade posted'' env_example"
  let ?st1 = "snd (publish all_ok 100 (Some body_example) env_example init_state)"
  let ?st2 = "snd (sse all_ok 100 3 (Some ''s1'') 1 2000 2000 ?st1)"
  have id: "make_id 1000 ''k3x'' = ''1000-k3x''"
    by code_simp
  have nm: "\<not> missing_or_empty (Some body_example)"
    by (simp add: missing_or_empty_def body_example_def)
  from publish_accepted [OF nm, of all_ok 100 env_example init_state]
  have p: "publish all_ok 100 (Some body_example) env_example init_state =
      (Reply 202 (Accepted (nid ?n)),
       snd (broadcastToStudent all_ok ''s1'' (evt live ?n)
              (addRecentNotification 100 (prune_now env_example) ?n init_state)))"
    by (auto simp: body_example_def)
  have resp: "fst (publish all_ok 100 (Some body_example) env_example init_state) =
      Reply 202 (Accepted ''1000-k3x'')"
    unfolding p fst_conv using id by (simp add: make_notification_def env_example_def)
  have d0: "distinct (map fst (recentNotifications init_state))"
    by (simp add: init_state_def)
  have sid: "studentId ?n = ''s1''" and created: "createdAt ?n = 1000"
    and pn: "prune_now env_example = 1000"
    by (simp_all add: make_notification_def env_example_def)
  have h1: "history_of ''s1'' ?st1 = [?n]"
    unfolding p snd_conv history_of_broadcast history_of_append [OF d0] sid pn
    by (simp add: created history_of_def init_state_def)
  have d1: "distinct (map fst (recentNotifications ?st1))"
    unfolding p snd_conv broadcastToStudent_fields
    using distinct_store_perform [OF d0, of all_ok 100 3 "PubAppend ?n (prune_now env_example)"]
    by simp
  have w1: "written ?st1 1 = []"
    unfolding p snd_conv
    by (simp add: broadcastToStudent_written conns_of_def init_state_def all_ok_def)
  have q: "\<not> falsy (Some ''s1'')" and ts: "the_string (Some ''s1'') = ''s1''"
    by (simp_all add: falsy_def the_string_def)
  have opened: "fst (sse all_ok 100 3 (Some ''s1'') 1 2000 2000 ?st1) = StreamOpen"
    by (simp add: sse_accepted [OF q] all_ok_def)
  have w2: "written ?st2 1 = [Connected 2000]"
    unfolding sse_written [OF q] ts history_of_prune [OF d1] h1 w1
    by (simp add: created all_ok_def)
  have "deliveries ?n 1 ?st2 = 0"
    unfolding deliveries_def w2 by (simp add: evt_def)
  with resp opened w2 show ?thesis by blast
qed

text \<open>
  C1, amended. Take an accepted publish of \<open>(s, m)\<close> and an accepted subscribe of the reply
  \<open>r\<close> for \<open>s\<close>, on a store with distinct keys, where the stream of \<open>r\<close> accepts writes and the
  notification is within the retention window both at the prune that ends its append and
  at the prune that opens the replay. The two handlers run their actions in program order
  (store, then broadcast; register, then opening comment, then replay), and in every
  interleaving of these actions the stream of \<open>r\<close> receives the notification at least once
  more than it held before, as a \<open>missed\<close> or as a \<open>live\<close> event; in particular in the two
  orders in which the handlers run one after the other.
\<close>

theorem at_least_once:
  assumes "distinct (map fst (recentNotifications st))"
    and "s \<noteq> []" and "m \<noteq> []" and "ok r"
    and "prune_now env - created_now env \<le> ttl" and "now - created_now env \<le> ttl"
  shows "(\<forall>st0. snd (publish ok ttl (Some \<lparr> body_studentId = Some s, body_message = Some m \<rparr>)
                      env st0) =
                foldl (perform ok ttl maxc) st0 (publish_actions s m env))
       \<and> (\<forall>st0. snd (sse ok ttl maxc (Some s) r conn_now now st0) =
                foldl (perform ok ttl maxc) st0 (subscribe_actions s r conn_now now))
       \<and> (\<forall>sched \<in> set (interleavings (publish_actions s m env)
                                        (subscribe_actions s r conn_now now)).
            deliveries (make_notification s m env) r st <
            deliveries (make_notification s m env) r (foldl (perform ok ttl maxc) st sched))
       \<and> deliveries (make_notification s m env) r st <
           deliveries (make_notification s m env) r
             (snd (sse ok ttl maxc (Some s) r conn_now now
                (snd (publish ok ttl (Some \<lparr> body_studentId = Some s, body_message = Some m \<rparr>)
                        env st))))
       \<and> deliveries (make_notification s m env) r st <
           deliveries (make_notification s m env) r
             (snd (publish ok ttl (Some \<lparr> body_studentId = Some s, body_message = Some m \<rparr>) env
                (snd (sse ok ttl maxc (Some s) r conn_now now st))))"
proof -
  let ?n = "make_notification s m env"
  let ?pubs = "publish_actions s m env"
  let ?subs = "subscribe_actions s r conn_now now"
  let ?b = "Some \<lparr> body_studentId = Some s, body_message = Some m \<rparr>"
  have sid: "studentId ?n = s" and created: "createdAt ?n = created_now env"
    by (simp_all add: make_notification_def)
  have pub: "\<And>st0. snd (publish ok ttl ?b env st0) = foldl (perform ok ttl maxc) st0 ?pubs"
    by (rule publish_runs_actions [OF assms(2,3)])
  have sub: "\<And>st0. snd (sse ok ttl maxc (Some s) r conn_now now st0) =
      foldl (perform ok ttl maxc) st0 ?subs"
    by (rule sse_runs_actions [where ok = ok and r = r, OF assms(2,4)])
  have all: "deliveries ?n r st < deliveries ?n r (foldl (perform ok ttl maxc) st sched)"
    if "sched \<in> set (interleavings ?pubs ?subs)" for sched
  proof -
    have "sched \<in> set (interleavings
        [PubAppend ?n (prune_now env), PubBroadcast ?n]
        [SubRegister (studentId ?n) r, SubConnected r conn_now, SubReplay (studentId ?n) r now])"
      using that by (simp only: publish_actions_def subscribe_actions_def sid)
    from schedules_deliver [where ok = ok and r = r and ttl = ttl and maxc = maxc,
        OF assms(1,4) _ _ this] assms(5,6)
    show ?thesis by (simp add: created)
  qed
  have ps: "?pubs @ ?subs \<in> set (interleavings ?pubs ?subs)"
    and sp: "?subs @ ?pubs \<in> set (interleavings ?pubs ?subs)"
    by (simp_all add: publish_actions_def subscribe_actions_def)
  have seq1: "deliveries ?n r st <
      deliveries ?n r (snd (sse ok ttl maxc (Some s) r conn_now now (snd (publish ok ttl ?b env st))))"
    using all [OF ps] by (simp only: pub sub foldl_append)
  have seq2: "deliveries ?n r st <
      deliveries ?n r (snd (publish ok ttl ?b env (snd (sse ok ttl maxc (Some s) r conn_now now st))))"
    using all [OF sp] by (simp only: pub sub foldl_append)
  from pub sub all seq1 seq2 show ?thesis by blast
qed

theorem at_least_once_witness:
  "distinct (map fst (recentNotifications init_state))
   \<and> ''s1'' \<noteq> [] \<and> ''New grade posted'' \<noteq> [] \<and> all_ok 1
   \<and> prune_now env_example - created_now env_example \<le> 100
   \<and> 1050 - created_now env_example \<le> 100
   \<and> [SubRegister ''s1'' 1,
       PubAppend (make_notification ''s1'' ''New grade posted'' env_example) 1000,
       SubConnected 1 1040,
       PubBroadcast (make_notification ''s1'' ''New grade posted'' env_example),
       SubReplay ''s1'' 1 1050]
      \<in> set (interleavings (publish_actions ''s1'' ''New grade posted'' env_example)
                            (subscribe_actions ''s1'' 1 1040 1050))
   \<and> 0 < deliveries (make_notification ''s1'' ''New grade posted'' env_example) 1
        (foldl (perform all_ok 100 3) init_state
          [SubRegister ''s1'' 1,
           PubAppend (make_notification ''s1'' ''New grade posted'' env_example) 1000,
           SubConnected 1 1040,
           PubBroadcast (make_notification ''s1'' ''New grade posted'' env_example),
           SubReplay ''s1'' 1 1050])
   \<and> 0 < deliveries (make_notification ''s1'' ''New grade posted'' env_example) 1
        (snd (sse all_ok 100 3 (Some ''s1'') 1 1040 1050
           (snd (publish all_ok 100
              (Some \<lparr> body_studentId = Some ''s1'', body_message = Some ''New grade posted'' \<rparr>)
              env_example init_state))))"
proof -
  let ?n = "make_notification ''s1'' ''New grade posted'' env_example"
  let ?sched = "[SubRegister ''s1'' 1, PubAppend ?n 1000, SubConnected 1 1040,
       PubBroadcast ?n, SubReplay ''s1'' 1 1050]"
  have d: "distinct (map fst (recentNotifications init_state))"
    and s: "''s1'' \<noteq> []" and m: "''New grade posted'' \<noteq> []" and okr: "all_ok 1"
    and fp: "prune_now env_example - created_now env_example \<le> 100"
    and fs: "1050 - created_now env_example \<le> 100"
    by (simp_all add: init_state_def all_ok_def env_example_def)
  have mem: "?sched \<in> set (interleavings (publish_actions ''s1'' ''New grade posted'' env_example)
                            (subscribe_actions ''s1'' 1 1040 1050))"
    by (simp add: publish_actions_def subscribe_actions_def env_example_def)
  note t = at_least_once [where ok = all_ok and r = 1 and maxc = 3 and conn_now = 1040,
      OF d s m okr fp fs]
  note t2 = t [THEN conjunct2, THEN conjunct2]
  have a: "0 < deliveries ?n 1 (foldl (perform all_ok 100 3) init_state ?sched)"
    using t2 [THEN conjunct1, rule_format, OF mem] by simp
  have b: "0 < deliveries ?n 1
        (snd (sse all_ok 100 3 (Some ''s1'') 1 1040 1050
           (snd (publish all_ok 100
              (Some \<lparr> body_studentId = Some ''s1'', body_message = Some ''New grade posted'' \<rparr>)
              env_example init_state))))"
    using t2 [THEN conjunct2, THEN conjunct1] by simp
  show ?thesis by (intro conjI d s m okr fp fs mem a b)
qed

end
